theory Spec2Isabelle
  imports Complex_Main "HOL-Library.Word" "HOL-Library.Log_Nat" "HOL-Library.Multiset"
begin

section \<open>Consensus: pile-up of aligned reads and base calling\<close>

text \<open>
  A shallow embedding of \<^verbatim>\<open>Consensus/Consensus.cpp\<close>. The C++ type \<^verbatim>\<open>unsigned\<close> is a
  32-bit word (addition wraps, comparison is unsigned); \<^verbatim>\<open>int\<close> values are integers, with
  every conversion to an unsigned or narrower type written out where the source converts.
  A failed \<^verbatim>\<open>assert\<close>, an uncaught exception and \<^verbatim>\<open>exit(EXIT_FAILURE)\<close> end the run: they
  are the error value of a sum type.
\<close>

type_synonym u32 = "32 word"
type_synonym Sequence = string
type_synonym ContigID = string

datatype error = Abort

subsection \<open>Base encoding (Common/Sequence)\<close>

text \<open>
  Modelled from the spec: \<^verbatim>\<open>codeToBase\<close> and \<^verbatim>\<open>baseToCode\<close> are declared in a header that is
  not part of the sources at hand. The specification gives them as the dense coding of the
  symbols in the order A, C, G, T: \<^verbatim>\<open>codeToBase\<close> maps 0..3 to the uppercase symbol, and
  \<^verbatim>\<open>baseToCode\<close> maps the four symbols, in either case, to their code and is undefined on
  every other character (here: no code).
\<close>

definition codeToBase :: "int \<Rightarrow> char" where
  "codeToBase code =
     (if code = 0 then CHR ''A'' else if code = 1 then CHR ''C''
      else if code = 2 then CHR ''G'' else CHR ''T'')"

definition baseToCode :: "char \<Rightarrow> nat option" where
  "baseToCode c =
     (if c = CHR ''A'' \<or> c = CHR ''a'' then Some 0
      else if c = CHR ''C'' \<or> c = CHR ''c'' then Some 1
      else if c = CHR ''G'' \<or> c = CHR ''g'' then Some 2
      else if c = CHR ''T'' \<or> c = CHR ''t'' then Some 3
      else None)"

subsection \<open>Base counts\<close>

text \<open>
  \<^verbatim>\<open>struct BaseCount { unsigned count[4]; }\<close>: four counters, indexed by the base code.
  \<^verbatim>\<open>count_at\<close> reads \<^verbatim>\<open>count[x]\<close> and \<^verbatim>\<open>count_incr\<close> is \<^verbatim>\<open>count[x]++\<close>, for \<open>x\<close> in 0..3.
\<close>

record BaseCount =
  count0 :: u32
  count1 :: u32
  count2 :: u32
  count3 :: u32

definition BaseCount_init :: BaseCount where
  "BaseCount_init = \<lparr>count0 = 0, count1 = 0, count2 = 0, count3 = 0\<rparr>"

definition count_at :: "BaseCount \<Rightarrow> nat \<Rightarrow> u32" where
  "count_at b x =
     (if x = 0 then count0 b else if x = 1 then count1 b
      else if x = 2 then count2 b else count3 b)"

definition count_incr :: "BaseCount \<Rightarrow> nat \<Rightarrow> BaseCount" where
  "count_incr b x =
     (if x = 0 then b\<lparr>count0 := count0 b + 1\<rparr>
      else if x = 1 then b\<lparr>count1 := count1 b + 1\<rparr>
      else if x = 2 then b\<lparr>count2 := count2 b + 1\<rparr>
      else b\<lparr>count3 := count3 b + 1\<rparr>)"

text \<open>\<^verbatim>\<open>BaseCount::sum\<close>: the counters added up as \<^verbatim>\<open>int\<close> and returned as \<^verbatim>\<open>unsigned\<close>.\<close>

definition count_sum :: "BaseCount \<Rightarrow> u32" where
  "count_sum b = count0 b + count1 b + count2 b + count3 b"

subsection \<open>selectBase\<close>

text \<open>
  The three locals of \<^verbatim>\<open>selectBase\<close>, and one turn of its loop over \<open>x = 0..3\<close>:
  a counter that is strictly greater than the best one so far becomes the best, and the
  former best becomes the second.
\<close>

record select_state =
  bestBase :: int
  bestCount :: u32
  secondCount :: u32

definition select_init :: select_state where
  "select_init = \<lparr>bestBase = -1, bestCount = 0, secondCount = 0\<rparr>"

definition select_step :: "BaseCount \<Rightarrow> select_state \<Rightarrow> nat \<Rightarrow> select_state" where
  "select_step c st x =
     (if count_at c x > bestCount st
      then \<lparr>bestBase = int x, bestCount = count_at c x, secondCount = bestCount st\<rparr>
      else st)"

definition select_scan :: "BaseCount \<Rightarrow> select_state" where
  "select_scan c = foldl (select_step c) select_init [0, 1, 2, 3]"

text \<open>
  \<^verbatim>\<open>selectBase(count, sumBest, sumSecond)\<close> returns the called character and the two
  running totals, which the source updates through references.
\<close>

definition selectBase :: "BaseCount \<Rightarrow> u32 \<Rightarrow> u32 \<Rightarrow> char \<times> u32 \<times> u32" where
  "selectBase c sumBest sumSecond =
     (let st = select_scan c
      in (if bestBase st = -1 then CHR ''N'' else codeToBase (bestBase st),
          sumBest + bestCount st,
          sumSecond + secondCount st))"


subsection \<open>Characters and strings (the C library and \<^verbatim>\<open>std::string\<close>)\<close>

definition isdigit :: "char \<Rightarrow> bool" where
  "isdigit c \<longleftrightarrow> 48 \<le> (of_char c :: nat) \<and> (of_char c :: nat) \<le> 57"

definition isupper :: "char \<Rightarrow> bool" where
  "isupper c \<longleftrightarrow> 65 \<le> (of_char c :: nat) \<and> (of_char c :: nat) \<le> 90"

definition islower :: "char \<Rightarrow> bool" where
  "islower c \<longleftrightarrow> 97 \<le> (of_char c :: nat) \<and> (of_char c :: nat) \<le> 122"

definition isalpha :: "char \<Rightarrow> bool" where
  "isalpha c \<longleftrightarrow> isupper c \<or> islower c"

definition tolower :: "char \<Rightarrow> char" where
  "tolower c = (if isupper c then char_of (of_char c + (32::nat)) else c)"

definition toupper :: "char \<Rightarrow> char" where
  "toupper c = (if islower c then char_of (of_char c - (32::nat)) else c)"

text \<open>
  \<^verbatim>\<open>seq[x]\<close> on a \<^verbatim>\<open>std::string\<close>: the character at \<open>x\<close>, and the terminating null
  character at \<open>x = seq.length()\<close>. The source never indexes further: a pile-up table is
  at most one longer than its sequence.
\<close>

definition seq_at :: "Sequence \<Rightarrow> nat \<Rightarrow> char" where
  "seq_at s x = (if x < length s then s ! x else CHR 0x00)"

text \<open>
  \<^verbatim>\<open>find_first_of\<close> and \<^verbatim>\<open>find_last_of\<close>: the position of the first (last) character of
  the string that occurs in the given set of characters; \<open>None\<close> is \<^verbatim>\<open>string::npos\<close>.
\<close>

fun find_first_from :: "nat \<Rightarrow> string \<Rightarrow> string \<Rightarrow> nat option" where
  "find_first_from i [] cs = None"
| "find_first_from i (c # s) cs = (if c \<in> set cs then Some i else find_first_from (Suc i) s cs)"

definition find_first_of :: "string \<Rightarrow> string \<Rightarrow> nat option" where
  "find_first_of s cs = find_first_from 0 s cs"

definition find_last_of :: "string \<Rightarrow> string \<Rightarrow> nat option" where
  "find_last_of s cs =
     (case find_first_of (rev s) cs of None \<Rightarrow> None | Some i \<Rightarrow> Some (length s - 1 - i))"

subsection \<open>Options and the contig table\<close>

text \<open>
  The run-mode switches of \<^verbatim>\<open>namespace opt\<close>: \<^verbatim>\<open>outputCS\<close>, \<^verbatim>\<open>onlyVariants\<close> and
  \<^verbatim>\<open>verbose\<close> are \<^verbatim>\<open>int\<close>s set by the option parser, \<^verbatim>\<open>csToNt\<close> and \<^verbatim>\<open>colourSpace\<close> are
  flags that \<^verbatim>\<open>readContigs\<close> sets from the first contig.
\<close>

record options =
  csToNt :: bool
  colourSpace :: bool
  outputCS :: int
  onlyVariants :: int
  verbose :: int

record ContigCount =
  seq :: Sequence
  coverage :: u32
  comment :: string
  counts :: "BaseCount list"

type_synonym ContigMap = "ContigID \<rightharpoonup> ContigCount"

text \<open>
  A record of the contig source. The stream extraction of lines 111 to 115 is left to the
  reader: the record holds its results, the coverage number and the text after it.
\<close>

record FastaRecord =
  rec_id :: ContigID
  rec_seq :: Sequence
  rec_coverage :: u32
  rec_text :: string

subsection \<open>readContigs\<close>

text \<open>
  One turn of the loop of \<^verbatim>\<open>readContigs\<close>; \<open>cnt\<close> is the local \<^verbatim>\<open>count\<close>. The table is
  sized from \<^verbatim>\<open>opt::csToNt\<close> as it is at that moment (\<^verbatim>\<open>numBases\<close> is \<^verbatim>\<open>unsigned\<close>), and
  only then does the first turn detect colour space and set the flags.
\<close>

definition readContigs_step ::
  "options \<times> ContigMap \<times> nat \<Rightarrow> FastaRecord \<Rightarrow> error + options \<times> ContigMap \<times> nat" where
  "readContigs_step st r =
     (case st of (opt, g, cnt) \<Rightarrow>
        let sq = rec_seq r;
            numBases = (if csToNt opt then length sq + 1 else length sq) mod 2 ^ 32;
            contig = \<lparr>seq = sq, coverage = rec_coverage r, comment = rec_text r,
                      counts = replicate numBases BaseCount_init\<rparr>;
            g' = g(rec_id r \<mapsto> contig)
        in if cnt = 0 then
             (let opt1 = opt\<lparr>colourSpace := isdigit (seq_at sq 0)\<rparr>
              in if outputCS opt1 = 0 then Inr (opt1\<lparr>csToNt := colourSpace opt1\<rparr>, g', cnt + 1)
                 else if \<not> colourSpace opt1 then Inl Abort
                 else Inr (opt1, g', cnt + 1))
           else if colourSpace opt then
             (if isdigit (seq_at sq 0) then Inr (opt, g', cnt + 1) else Inl Abort)
           else
             (if isalpha (seq_at sq 0) then Inr (opt, g', cnt + 1) else Inl Abort))"

fun readContigs_loop ::
  "options \<times> ContigMap \<times> nat \<Rightarrow> FastaRecord list \<Rightarrow> error + options \<times> ContigMap \<times> nat" where
  "readContigs_loop st [] = Inr st"
| "readContigs_loop st (r # rs) =
     (case readContigs_step st r of Inl e \<Rightarrow> Inl e | Inr st' \<Rightarrow> readContigs_loop st' rs)"

text \<open>
  \<^verbatim>\<open>readContigs\<close> on the records of the contig file, starting from the empty table; the
  final \<^verbatim>\<open>assert(count > 0)\<close> ends a run without contigs. The assertion that the reader
  has reached the end of the file is about the reader and has no counterpart here.
\<close>

definition readContigs :: "options \<Rightarrow> FastaRecord list \<Rightarrow> error + options \<times> ContigMap" where
  "readContigs opt recs =
     (case readContigs_loop (opt, Map.empty, 0) recs of
        Inl e \<Rightarrow> Inl e
      | Inr (opt', g, cnt) \<Rightarrow> if cnt > 0 then Inr (opt', g) else Inl Abort)"

subsection \<open>Percent agreement in single precision\<close>

text \<open>
  \<^verbatim>\<open>float percentAgreement = sumBest / (float)(sumBest + sumSecond)\<close>: the sum is taken in
  \<^verbatim>\<open>unsigned\<close>, both operands are converted to IEEE 754 binary32, and the quotient is
  rounded to binary32 (24 significant bits, round to nearest, ties to even). The operands
  are below \<open>2 ^ 32\<close>, so every value is in the normal range, and the rounding is written
  out on exact rationals. A division by zero gives a NaN (0/0) or infinity.
\<close>

datatype cfloat = Finite rat | Infinity | NaN

definition pow2 :: "int \<Rightarrow> rat" where
  "pow2 e = (if 0 \<le> e then 2 ^ nat e else 1 / 2 ^ nat (- e))"

text \<open>
  The quotient of two naturals rounded to the nearest integer, a tie to the even one.
\<close>

definition round_div :: "nat \<Rightarrow> nat \<Rightarrow> nat" where
  "round_div a b =
     (let q = a div b; r = a mod b
      in if 2 * r < b then q else if b < 2 * r then q + 1
         else if even q then q else q + 1)"

text \<open>\<^verbatim>\<open>(float)n\<close> for an unsigned \<open>n\<close>: an integer again, \<open>n\<close> itself up to \<open>2 ^ 24\<close>.\<close>

definition float_of_unsigned :: "u32 \<Rightarrow> nat" where
  "float_of_unsigned w =
     (let n = unat w; k = nat (bitlen (int n))
      in if k \<le> 24 then n
         else let ulp = 2 ^ (k - 24); m = n div ulp; r = n mod ulp
              in (if 2 * r < ulp \<or> (2 * r = ulp \<and> even m) then m else m + 1) * ulp)"

text \<open>
  The binary32 quotient of two positive integer-valued floats. With \<open>e\<close> the binary
  exponent of the exact quotient (\<open>2 ^ e \<le> a / b < 2 ^ (e + 1)\<close>, found from the bit
  lengths), the quotient is rounded to a multiple of \<open>2 ^ (e - 23)\<close>: the significand
  \<open>a / (b * 2 ^ (e - 23))\<close> is rounded to an integer.
\<close>

definition float_quotient :: "nat \<Rightarrow> nat \<Rightarrow> rat" where
  "float_quotient a b =
     (let e0 = bitlen (int a) - bitlen (int b);
          e = (if b * 2 ^ nat e0 \<le> a * 2 ^ nat (- e0) then e0 else e0 - 1);
          m = round_div (a * 2 ^ nat (23 - e)) (b * 2 ^ nat (e - 23))
      in of_nat m * pow2 (e - 23))"

definition float_div :: "nat \<Rightarrow> nat \<Rightarrow> cfloat" where
  "float_div a b =
     (if b = 0 then (if a = 0 then NaN else Infinity)
      else if a = 0 then Finite 0
      else Finite (float_quotient a b))"

definition percentAgreement :: "u32 \<Rightarrow> u32 \<Rightarrow> cfloat" where
  "percentAgreement sumBest sumSecond =
     float_div (float_of_unsigned sumBest) (float_of_unsigned (sumBest + sumSecond))"

text \<open>
  The literal \<^verbatim>\<open>.9\<close> is a \<^verbatim>\<open>double\<close>: the binary64 number nearest to nine tenths, which is
  \<open>8106479329266893 / 2 ^ 53\<close>. The test \<^verbatim>\<open>isnan(percentAgreement) || percentAgreement < .9\<close>
  compares the binary32 quotient, converted exactly, with it.
\<close>

definition double_point_nine :: rat where
  "double_point_nine = 8106479329266893 / 9007199254740992"

definition low_agreement :: "cfloat \<Rightarrow> bool" where
  "low_agreement p =
     (case p of NaN \<Rightarrow> True | Infinity \<Rightarrow> False | Finite r \<Rightarrow> r < double_point_nine)"

subsection \<open>fixUnknown\<close>

text \<open>
  \<^verbatim>\<open>colourToNucleotideSpace(char, char)\<close> is defined outside these sources; it is the
  parameter \<open>cs2nt\<close>, which may fail. The loop of \<^verbatim>\<open>fixUnknown\<close> replaces the first
  \<^verbatim>\<open>'N'\<close> as long as there is one, so it only ends when the decoded bases are not
  \<^verbatim>\<open>'N'\<close>: not returning is the value \<open>None\<close>. \<^verbatim>\<open>string::at\<close> throws out of range.
\<close>

partial_function (option) fixUnknown_loop ::
  "(char \<Rightarrow> char \<Rightarrow> error + char) \<Rightarrow> Sequence \<Rightarrow> Sequence \<Rightarrow> (error + Sequence) option" where
  "fixUnknown_loop cs2nt ntSeq csSeq =
     (case find_first_of ntSeq ''N'' of
        None \<Rightarrow> Some (Inr ntSeq)
      | Some index \<Rightarrow>
          if index = 0 \<or> length csSeq \<le> index - 1 then Some (Inl Abort)
          else (case cs2nt (ntSeq ! (index - 1)) (csSeq ! (index - 1)) of
                  Inl e \<Rightarrow> Some (Inl e)
                | Inr base \<Rightarrow> fixUnknown_loop cs2nt (ntSeq[index := base]) csSeq))"

declare fixUnknown_loop.simps [code]

text \<open>
  \<^verbatim>\<open>rindex == ntSeq.length() - 1\<close> compares \<^verbatim>\<open>size_t\<close> values: on the empty string the
  right-hand side is \<^verbatim>\<open>npos\<close>. \<^verbatim>\<open>substr\<close> throws when its start is \<^verbatim>\<open>npos\<close>.
\<close>

definition fixUnknown ::
  "(char \<Rightarrow> char \<Rightarrow> error + char) \<Rightarrow> Sequence \<Rightarrow> Sequence \<Rightarrow> (error + Sequence) option" where
  "fixUnknown cs2nt ntSeq csSeq =
     (let index = find_first_of ntSeq ''N'';
          rindex = find_last_of ntSeq ''N''
      in if index = Some 0 \<or> rindex = (if ntSeq = [] then None else Some (length ntSeq - 1))
         then (case (find_first_of ntSeq ''ACGT'', find_last_of ntSeq ''ACGT'') of
                 (Some i0, Some i1) \<Rightarrow>
                    fixUnknown_loop cs2nt (take (i1 - i0 + 1) (drop i0 ntSeq)) csSeq
               | _ \<Rightarrow> Some (Inl Abort))
         else fixUnknown_loop cs2nt ntSeq csSeq)"

subsection \<open>Output of the consensus pass\<close>

text \<open>
  What \<^verbatim>\<open>consensus\<close> writes, in the order of writing: a record given to the sequence
  writer (\<^verbatim>\<open>outFile.WriteSequence\<close>), the two warnings on \<^verbatim>\<open>cerr\<close>, a line of the pile-up
  report, and a line of the verbose table on \<^verbatim>\<open>cout\<close>. The numeric key that the source
  derives from the contig name is left as the name. The colour of the verbose table is
  computed outside these sources, so its line holds the two characters that are encoded.
\<close>

datatype event =
    WriteSequence Sequence ContigID u32 string
  | WarnLowAgreement ContigID
  | WarnOmitted ContigID
  | PileupLine ContigID nat char char u32 string
  | VerboseColour ContigID nat nat char char char BaseCount
  | VerboseBase ContigID nat nat char char BaseCount

definition is_write :: "event \<Rightarrow> bool" where
  "is_write e = (case e of WriteSequence s i c t \<Rightarrow> True | _ \<Rightarrow> False)"

definition is_warning :: "event \<Rightarrow> bool" where
  "is_warning e = (case e of WarnLowAgreement i \<Rightarrow> True | WarnOmitted i \<Rightarrow> True | _ \<Rightarrow> False)"

definition is_pileup :: "event \<Rightarrow> bool" where
  "is_pileup e = (case e of PileupLine i p r g d b \<Rightarrow> True | _ \<Rightarrow> False)"

text \<open>
  The records written to the consensus output, and the warnings, of a pass that returned.
\<close>

definition written :: "(error + event list) option \<Rightarrow> event list" where
  "written r = (case r of Some (Inr evs) \<Rightarrow> filter is_write evs | _ \<Rightarrow> [])"

definition warnings :: "(error + event list) option \<Rightarrow> event list" where
  "warnings r = (case r of Some (Inr evs) \<Rightarrow> filter is_warning evs | _ \<Rightarrow> [])"

subsection \<open>writePileup\<close>

definition pileup_bases :: "char \<Rightarrow> BaseCount \<Rightarrow> string" where
  "pileup_bases foldrefc c =
     (if foldrefc \<in> set ''ACGT'' then
        (let r = the (baseToCode foldrefc)
         in concat (map (\<lambda>i. replicate (unat (count_at c i)) (codeToBase (int i)))
                      (filter (\<lambda>i. i \<noteq> r) [0, 1, 2, 3]))
            @ replicate (unat (count_at c r)) CHR ''.'')
      else concat (map (\<lambda>i. replicate (unat (count_at c i)) (codeToBase (int i))) [0, 1, 2, 3]))"

definition writePileup ::
  "options \<Rightarrow> ContigID \<Rightarrow> nat \<Rightarrow> char \<Rightarrow> char \<Rightarrow> BaseCount \<Rightarrow> event list" where
  "writePileup opt ident pos refc genotype c =
     (let foldrefc = toupper refc
      in if onlyVariants opt \<noteq> 0 \<and> foldrefc = genotype then []
         else [PileupLine ident (1 + pos) refc genotype (count_sum c) (pileup_bases foldrefc c)])"

subsection \<open>consensus\<close>

text \<open>
  The loop over the positions of one contig (lines 363 to 370): the base is called from
  the counters, takes the letter case of the draft sequence, and is reported to the
  pile-up when a path was given. The result is \<^verbatim>\<open>outSeq\<close>, the two totals and the lines.
\<close>

fun call_bases ::
  "options \<Rightarrow> string \<Rightarrow> ContigID \<Rightarrow> Sequence \<Rightarrow> nat \<Rightarrow> BaseCount list \<Rightarrow> u32 \<Rightarrow> u32
     \<Rightarrow> string \<times> u32 \<times> u32 \<times> event list" where
  "call_bases opt pileupPath ident sq x [] sumBest sumSecond = ([], sumBest, sumSecond, [])"
| "call_bases opt pileupPath ident sq x (c # cs) sumBest sumSecond =
     (case selectBase c sumBest sumSecond of (ch, sumBest', sumSecond') \<Rightarrow>
        (let oc = (if islower (seq_at sq x) then tolower ch else ch);
             ev = (if pileupPath \<noteq> [] then writePileup opt ident x (seq_at sq x) ch c else [])
         in case call_bases opt pileupPath ident sq (Suc x) cs sumBest' sumSecond' of
              (out, sb, ss, evs) \<Rightarrow> (oc # out, sb, ss, ev @ evs)))"

text \<open>
  The verbose table (lines 395 to 409), one line for each index of the list;
  \<^verbatim>\<open>contig.seq.at(i)\<close> throws beyond the sequence. The table is only printed for a
  called string that holds a determined base, so \<^verbatim>\<open>seqLength - 1\<close> does not wrap.
\<close>

fun verbose_table ::
  "bool \<Rightarrow> ContigID \<Rightarrow> string \<Rightarrow> ContigCount \<Rightarrow> nat list \<Rightarrow> error + event list" where
  "verbose_table cs ident outSeq contig [] = Inr []"
| "verbose_table cs ident outSeq contig (i # js) =
     (if length (seq contig) \<le> i then Inl Abort
      else (case verbose_table cs ident outSeq contig js of
              Inl e \<Rightarrow> Inl e
            | Inr evs \<Rightarrow>
                Inr ((if cs
                      then VerboseColour ident (length outSeq) i (outSeq ! i) (outSeq ! (i + 1))
                             (seq contig ! i) (counts contig ! i)
                      else VerboseBase ident (length outSeq) i (outSeq ! i)
                             (seq contig ! i) (counts contig ! i)) # evs)))"

definition verbose_block :: "options \<Rightarrow> ContigID \<Rightarrow> string \<Rightarrow> ContigCount \<Rightarrow> error + event list" where
  "verbose_block opt ident outSeq contig =
     (if verbose opt > 1 then
        (if csToNt opt then verbose_table True ident outSeq contig [0..<length outSeq - 1]
         else verbose_table False ident outSeq contig [0..<length outSeq])
      else Inr [])"

text \<open>
  The body of the loop of \<^verbatim>\<open>consensus\<close> for one contig of the table. A contig whose
  called string holds one of \<^verbatim>\<open>ACGT\<close> is tested for agreement: when the test fails it is
  not written, and outside colour-space conversion the \<^verbatim>\<open>continue\<close> also skips the verbose
  table; otherwise it is repaired (in colour-space conversion) and written.
\<close>

definition consensus_contig ::
  "(char \<Rightarrow> char \<Rightarrow> error + char) \<Rightarrow> options \<Rightarrow> string \<Rightarrow> ContigID \<Rightarrow> ContigCount
     \<Rightarrow> (error + event list) option" where
  "consensus_contig cs2nt opt pileupPath ident contig =
     (case call_bases opt pileupPath ident (seq contig) 0 (counts contig) 0 0 of
        (outSeq, sumBest, sumSecond, pile) \<Rightarrow>
          if find_first_of outSeq ''ACGT'' \<noteq> None then
            (if low_agreement (percentAgreement sumBest sumSecond) then
               (if csToNt opt then
                  (case verbose_block opt ident outSeq contig of
                     Inl e \<Rightarrow> Some (Inl e)
                   | Inr vs \<Rightarrow>
                       Some (Inr (pile @ (if verbose opt > 0 then [WarnLowAgreement ident] else [])
                                  @ vs)))
                else Some (Inr pile))
             else
               (case (if csToNt opt then fixUnknown cs2nt outSeq (seq contig)
                      else Some (Inr outSeq)) of
                  None \<Rightarrow> None
                | Some (Inl e) \<Rightarrow> Some (Inl e)
                | Some (Inr outString) \<Rightarrow>
                    (case verbose_block opt ident outSeq contig of
                       Inl e \<Rightarrow> Some (Inl e)
                     | Inr vs \<Rightarrow>
                         Some (Inr (pile
                                    @ [WriteSequence outString ident (coverage contig) (comment contig)]
                                    @ vs)))))
          else Some (Inr (pile @ (if verbose opt > 0 then [WarnOmitted ident] else []))))"

text \<open>
  \<^verbatim>\<open>consensus\<close> visits the contigs in the order of the hash table, which is the list
  \<open>ids\<close> of its keys here.
\<close>

fun consensus ::
  "(char \<Rightarrow> char \<Rightarrow> error + char) \<Rightarrow> options \<Rightarrow> string \<Rightarrow> ContigMap \<Rightarrow> ContigID list
     \<Rightarrow> (error + event list) option" where
  "consensus cs2nt opt pileupPath g [] = Some (Inr [])"
| "consensus cs2nt opt pileupPath g (ident # ids) =
     (case g ident of
        None \<Rightarrow> consensus cs2nt opt pileupPath g ids
      | Some contig \<Rightarrow>
          (case consensus_contig cs2nt opt pileupPath ident contig of
             None \<Rightarrow> None
           | Some (Inl e) \<Rightarrow> Some (Inl e)
           | Some (Inr evs) \<Rightarrow>
               (case consensus cs2nt opt pileupPath g ids of
                  None \<Rightarrow> None
                | Some (Inl e) \<Rightarrow> Some (Inl e)
                | Some (Inr rest) \<Rightarrow> Some (Inr (evs @ rest)))))"

subsection \<open>Alignments (Aligner.h)\<close>

record Alignment =
  contig :: ContigID
  contig_start_pos :: int
  read_start_pos :: int
  align_length :: int
  read_length :: int
  isRC :: bool

text \<open>
  Modelled from the spec: \<^verbatim>\<open>Alignment::flipQuery\<close> and \<^verbatim>\<open>reverseComplement\<close> are defined in
  headers that are not part of the sources at hand. The specification says that for a
  reverse-complement placement the read is reverse-complemented and its coordinates are
  mirrored, the start position and the orientation being recomputed: the aligned part,
  which starts at \<open>read_start_pos\<close> and has \<open>align_length\<close> characters, starts at
  \<open>read_length - (read_start_pos + align_length)\<close> in the reversed read. The reverse
  complement itself is computed by the source but never read while it exists (see
  \<open>oriented\<close> below); it appears in this theory only as one possible content of the
  released memory.
\<close>

definition flipQuery :: "Alignment \<Rightarrow> Alignment" where
  "flipQuery a =
     a\<lparr>read_start_pos := read_length a - (read_start_pos a + align_length a),
       isRC := \<not> isRC a\<rparr>"

definition complementBase :: "char \<Rightarrow> char" where
  "complementBase c =
     (if c = CHR ''A'' then CHR ''T'' else if c = CHR ''T'' then CHR ''A''
      else if c = CHR ''C'' then CHR ''G'' else if c = CHR ''G'' then CHR ''C''
      else if c = CHR ''a'' then CHR ''t'' else if c = CHR ''t'' then CHR ''a''
      else if c = CHR ''c'' then CHR ''g'' else if c = CHR ''g'' then CHR ''c''
      else c)"

definition reverseComplement :: "Sequence \<Rightarrow> Sequence" where
  "reverseComplement s = rev (map complementBase s)"

subsection \<open>buildBaseQuality\<close>

text \<open>
  The conversion of a \<^verbatim>\<open>size_t\<close> value to \<^verbatim>\<open>int\<close>: the low 32 bits, in two's complement.
\<close>

definition int_of_size :: "int \<Rightarrow> int" where
  "int_of_size v = (v + 2 ^ 31) mod 2 ^ 32 - 2 ^ 31"

text \<open>
  The window \<open>[read_min, read_max)\<close> of read positions that are piled up (lines 214 to
  226). Outside colour-space conversion \<^verbatim>\<open>read_max\<close> is computed in \<^verbatim>\<open>size_t\<close> and stored
  in an \<^verbatim>\<open>int\<close>.
\<close>

definition read_window :: "options \<Rightarrow> nat \<Rightarrow> Alignment \<Rightarrow> int \<times> int" where
  "read_window opt n a =
     (if \<not> csToNt opt then
        (let d = read_start_pos a - contig_start_pos a;
             read_min = (if d > 0 then d else 0);
             m = int_of_size (read_start_pos a + int n - contig_start_pos a);
             read_max = (if m < read_length a then m else read_length a)
         in (read_min, read_max))
      else (read_start_pos a, read_start_pos a + align_length a + 1))"

text \<open>
  The destination of read position \<open>x\<close>: \<^verbatim>\<open>unsigned loc = a.contig_start_pos -
  a.read_start_pos + x\<close>, an \<^verbatim>\<open>int\<close> converted to \<^verbatim>\<open>unsigned\<close>.
\<close>

definition pileup_offset :: "Alignment \<Rightarrow> int \<Rightarrow> int" where
  "pileup_offset a x = contig_start_pos a - read_start_pos a + x"

definition pileup_loc :: "Alignment \<Rightarrow> int \<Rightarrow> nat" where
  "pileup_loc a x = nat (pileup_offset a x mod 2 ^ 32)"

text \<open>
  The innermost loop (lines 239 to 248), from \<open>x\<close> up to \<open>read_max\<close>: the counter of the
  base at read position \<open>x\<close> is incremented at \<open>loc\<close>, after the assertion that \<open>loc\<close> is
  inside the table. A character without a base code ends the run.
\<close>

function pileup_loop ::
  "Sequence \<Rightarrow> Alignment \<Rightarrow> int \<Rightarrow> int \<Rightarrow> BaseCount list \<Rightarrow> error + BaseCount list" where
  "pileup_loop s a read_max x countsVec =
     (if x < read_max then
        (case baseToCode (seq_at s (nat x)) of
           None \<Rightarrow> Inl Abort
         | Some base \<Rightarrow>
             if pileup_loc a x < length countsVec
             then pileup_loop s a read_max (x + 1)
                    (countsVec[pileup_loc a x := count_incr (countsVec ! pileup_loc a x) base])
             else Inl Abort)
      else Inr countsVec)"
  by pat_completeness auto
termination
  by (relation "measure (\<lambda>(s, a, read_max, x, countsVec). nat (read_max - x))") auto

text \<open>
  The characters \<open>s\<close> and the alignment \<open>a\<close> that the loop uses. For a placement on the
  forward strand they are the read and the alignment. For a placement on the reverse
  strand the alignment is flipped, and line 201 sets \<^verbatim>\<open>s = reverseComplement(seq).c_str()\<close>:
  the reverse complement is a temporary string that is destroyed at the end of that
  statement, so line 242 reads \<^verbatim>\<open>s[x]\<close> through a pointer to released memory. What is
  read there is not determined by the source. It is the parameter \<open>stale\<close>, the
  characters found at that address, which may depend on all the program holds at that
  point: the table, the read and the alignment. The released memory may still hold the
  reverse complement (\<open>stale g sq a = reverseComplement sq\<close>) or anything else.
\<close>

type_synonym released_memory = "ContigMap \<Rightarrow> Sequence \<Rightarrow> Alignment \<Rightarrow> Sequence"

definition oriented ::
  "released_memory \<Rightarrow> ContigMap \<Rightarrow> Sequence \<Rightarrow> Alignment \<Rightarrow> Sequence \<times> Alignment" where
  "oriented stale g sq a0 = (if isRC a0 then (stale g sq a0, flipQuery a0) else (sq, a0))"

text \<open>
  The body of the loop over the alignments of a read (lines 198 to 248). An alignment to
  an unknown contig is skipped. The three assertions come before the loop; the line
  printed on \<^verbatim>\<open>cerr\<close> just before the first one fails is not kept.
\<close>

definition pileup_alignment ::
  "options \<Rightarrow> released_memory \<Rightarrow> Sequence \<Rightarrow> ContigMap \<Rightarrow> Alignment \<Rightarrow> error + ContigMap" where
  "pileup_alignment opt stale sq g a0 =
     (case oriented stale g sq a0 of (s, a) \<Rightarrow>
        (case g (contig a) of
           None \<Rightarrow> Inr g
         | Some cc \<Rightarrow>
             (case read_window opt (length (counts cc)) a of (read_min, read_max) \<Rightarrow>
                if \<not> (int_of_size (int (length (counts cc)))
                         \<ge> contig_start_pos a - read_start_pos a + read_max - 1) then Inl Abort
                else if \<not> (read_max \<le> int_of_size (int (length sq))) then Inl Abort
                else if \<not> (read_min \<ge> 0) then Inl Abort
                else (case pileup_loop s a read_max read_min (counts cc) of
                        Inl e \<Rightarrow> Inl e
                      | Inr countsVec \<Rightarrow> Inr (g(contig a \<mapsto> cc\<lparr>counts := countsVec\<rparr>))))))"

fun pileup_alignments ::
  "options \<Rightarrow> released_memory \<Rightarrow> Sequence \<Rightarrow> ContigMap \<Rightarrow> Alignment list
     \<Rightarrow> error + ContigMap" where
  "pileup_alignments opt stale sq g [] = Inr g"
| "pileup_alignments opt stale sq g (a # as) =
     (case pileup_alignment opt stale sq g a of
        Inl e \<Rightarrow> Inl e
      | Inr g' \<Rightarrow> pileup_alignments opt stale sq g' as)"

text \<open>
  The body of the loop over the input lines (lines 172 to 249), on a line as
  \<^verbatim>\<open>readAlignment\<close> has parsed it: the read sequence and its alignments. In colour-space
  conversion a read is used only when one of its alignments starts at read position 0.
\<close>

type_synonym read_line = "Sequence \<times> Alignment list"

definition anchored :: "Alignment list \<Rightarrow> bool" where
  "anchored alignments = (\<exists>a \<in> set alignments. read_start_pos a = 0)"

definition accumulate ::
  "options \<Rightarrow> released_memory \<Rightarrow> ContigMap \<Rightarrow> read_line \<Rightarrow> error + ContigMap" where
  "accumulate opt stale g rd =
     (case rd of (sq, alignments) \<Rightarrow>
        if csToNt opt \<and> \<not> anchored alignments then Inr g
        else pileup_alignments opt stale sq g alignments)"

fun accumulate_all ::
  "options \<Rightarrow> released_memory \<Rightarrow> ContigMap \<Rightarrow> read_line list \<Rightarrow> error + ContigMap" where
  "accumulate_all opt stale g [] = Inr g"
| "accumulate_all opt stale g (rd # rds) =
     (case accumulate opt stale g rd of
        Inl e \<Rightarrow> Inl e
      | Inr g' \<Rightarrow> accumulate_all opt stale g' rds)"

text \<open>
  \<^verbatim>\<open>buildBaseQuality\<close>: colour-space conversion first clears \<^verbatim>\<open>opt::colourSpace\<close>, then
  every line is accumulated. The result is the options and the table after the pass.
\<close>

definition buildBaseQuality ::
  "options \<Rightarrow> released_memory \<Rightarrow> ContigMap \<Rightarrow> read_line list
     \<Rightarrow> error + options \<times> ContigMap" where
  "buildBaseQuality opt stale g rds =
     (let opt' = (if csToNt opt then opt\<lparr>colourSpace := False\<rparr> else opt)
      in case accumulate_all opt' stale g rds of
           Inl e \<Rightarrow> Inl e
         | Inr g' \<Rightarrow> Inr (opt', g'))"

subsection \<open>Invariants used in the proofs\<close>

text \<open>
  The invariant of the loop of \<^verbatim>\<open>selectBase\<close> after the counters below \<open>k\<close>: either
  nothing was positive so far, or the best base is the first one with the greatest count.
\<close>

definition select_inv :: "BaseCount \<Rightarrow> nat \<Rightarrow> select_state \<Rightarrow> bool" where
  "select_inv c k st \<longleftrightarrow>
     (bestBase st = -1 \<and> bestCount st = 0 \<and> (\<forall>j<k. count_at c j = 0))
   \<or> (\<exists>b<k. bestBase st = int b \<and> bestCount st = count_at c b
          \<and> (\<forall>j<k. count_at c j \<le> count_at c b)
          \<and> (\<forall>j<b. count_at c j < count_at c b))"

text \<open>
  A step that may fail, continued after a failure: the failure is kept. The loops over the
  alignments of a read and over the lines are folds of such steps.
\<close>

definition kstep :: "('s \<Rightarrow> 'a \<Rightarrow> error + 's) \<Rightarrow> 'a \<Rightarrow> error + 's \<Rightarrow> error + 's" where
  "kstep f x st = (case st of Inl e \<Rightarrow> Inl e | Inr s \<Rightarrow> f s x)"

text \<open>
  Two tables of counters that differ by the fixed amounts \<open>d\<close>, position by position and
  base by base; two contig tables with the same contigs whose counters differ by \<open>d\<close> and
  that agree on everything else.
\<close>

definition counts_shifted :: "(nat \<Rightarrow> nat \<Rightarrow> u32) \<Rightarrow> BaseCount list \<Rightarrow> BaseCount list \<Rightarrow> bool" where
  "counts_shifted d cv cv' \<longleftrightarrow>
     length cv' = length cv \<and>
     (\<forall>loc<length cv. \<forall>b<4. count_at (cv' ! loc) b = count_at (cv ! loc) b + d loc b)"

definition shifted :: "(ContigID \<Rightarrow> nat \<Rightarrow> nat \<Rightarrow> u32) \<Rightarrow> ContigMap \<Rightarrow> ContigMap \<Rightarrow> bool" where
  "shifted d g h \<longleftrightarrow>
     (\<forall>i. case g i of
            None \<Rightarrow> h i = None
          | Some c \<Rightarrow> (\<exists>cv'. h i = Some (c\<lparr>counts := cv'\<rparr>) \<and> counts_shifted (d i) (counts c) cv'))"

text \<open>
  A line up to the order of its alignments, and an input without a placement on the
  reverse strand.
\<close>

definition forward_only :: "read_line list \<Rightarrow> bool" where
  "forward_only rds = (\<forall>rd \<in> set rds. \<forall>a \<in> set (snd rd). \<not> isRC a)"

definition line_key :: "read_line \<Rightarrow> Sequence \<times> Alignment multiset" where
  "line_key rd = (fst rd, mset (snd rd))"

text \<open>
  The read depth that a read adds, counted from its alignments alone: the number of read
  positions of the window of an alignment whose destination is position \<open>loc\<close> of contig
  \<open>i\<close>, and the sum of these numbers over all the alignments of the read, whatever their
  read start. The window and the destination are those of the source; no character is
  read and no counter is touched.
\<close>

definition window_hits :: "Alignment \<Rightarrow> int \<Rightarrow> int \<Rightarrow> nat \<Rightarrow> nat" where
  "window_hits a read_min read_max loc =
     length (filter (\<lambda>x. pileup_loc a x = loc) [read_min..read_max - 1])"

definition placement_hits :: "options \<Rightarrow> ContigMap \<Rightarrow> Alignment \<Rightarrow> ContigID \<Rightarrow> nat \<Rightarrow> nat" where
  "placement_hits opt g a0 i loc =
     (let a = (if isRC a0 then flipQuery a0 else a0)
      in case g (contig a) of
           None \<Rightarrow> 0
         | Some cc \<Rightarrow>
             (case read_window opt (length (counts cc)) a of (read_min, read_max) \<Rightarrow>
                if contig a = i then window_hits a read_min read_max loc else 0))"

definition read_hits :: "options \<Rightarrow> ContigMap \<Rightarrow> Alignment list \<Rightarrow> ContigID \<Rightarrow> nat \<Rightarrow> nat" where
  "read_hits opt g als i loc = sum_list (map (\<lambda>a0. placement_hits opt g a0 i loc) als)"

section \<open>Properties of selectBase\<close>

lemma less_4_cases: "(j::nat) < 4 \<longleftrightarrow> j = 0 \<or> j = 1 \<or> j = 2 \<or> j = 3"
  by arith

lemma all_less_4: "(\<forall>j<4::nat. P j) = (P 0 \<and> P 1 \<and> P 2 \<and> P 3)"
  by (auto simp: less_4_cases)

lemma ex_less_4: "(\<exists>j<4::nat. P j) = (P 0 \<or> P 1 \<or> P 2 \<or> P 3)"
  by (auto simp: less_4_cases)

lemma select_inv_init: "select_inv c 0 select_init"
  by (simp add: select_inv_def select_init_def)

lemma select_inv_step:
  assumes "select_inv c k st"
  shows "select_inv c (Suc k) (select_step c st k)"
proof (cases "count_at c k > bestCount st")
  case True
  then have st': "select_step c st k =
      \<lparr>bestBase = int k, bestCount = count_at c k, secondCount = bestCount st\<rparr>"
    by (simp add: select_step_def)
  from assms True have below: "\<forall>j<k. count_at c j < count_at c k"
    unfolding select_inv_def by (auto simp: word_gt_0 elim: le_less_trans)
  then have "\<forall>j<Suc k. count_at c j \<le> count_at c k"
    by (auto simp: less_Suc_eq)
  with below show ?thesis
    unfolding select_inv_def st' by auto
next
  case False
  then have st': "select_step c st k = st" and le: "count_at c k \<le> bestCount st"
    by (simp_all add: select_step_def)
  from assms le show ?thesis
    unfolding select_inv_def st' by (auto simp: less_Suc_eq)
qed

lemma select_scan_inv: "select_inv c 4 (select_scan c)"
proof -
  have "select_inv c (Suc (Suc (Suc (Suc 0))))
      (select_step c (select_step c (select_step c (select_step c select_init 0) (Suc 0))
         (Suc (Suc 0))) (Suc (Suc (Suc 0))))"
    by (intro select_inv_step select_inv_init)
  then show ?thesis
    by (simp add: select_scan_def numeral_eq_Suc)
qed

lemma select_scan_zero: "(\<forall>j<4. count_at c j = 0) \<Longrightarrow> select_scan c = select_init"
  by (simp add: select_scan_def select_step_def)

text \<open>
  Claim C1, at the tie of its scenario. The claim reads: the runner-up value of
  \<^verbatim>\<open>selectBase\<close> is the second-highest of the four counters, so a table with five votes for
  A and five for T adds 5 to the best total and 5 to the second total. The code adds 5 to
  the best total and 0 to the second: the second count is only ever set to the best count
  that a strictly greater counter replaces, and the T counter is not strictly greater.
\<close>

theorem selectBase_tie_second:
  "selectBase \<lparr>count0 = 5, count1 = 0, count2 = 0, count3 = 5\<rparr> 0 0 = (CHR ''A'', 5, 0)"
  by (simp add: selectBase_def select_scan_def select_step_def select_init_def count_at_def
      codeToBase_def)

text \<open>
  Claim C7: for every table of base counts, the base that \<^verbatim>\<open>selectBase\<close> returns is the
  symbol with the highest count, and among symbols tied for the highest count the one with
  the lowest code (A before C before G before T): every symbol has at most its count, and
  every symbol with a lower code has strictly less. The only table without a winning base
  is the one with no votes, where the undetermined marker is returned.
\<close>

theorem selectBase_winner:
  "(\<exists>b<4. fst (selectBase c sumBest sumSecond) = codeToBase (int b)
        \<and> (\<forall>j<4. count_at c j \<le> count_at c b)
        \<and> (\<forall>j<b. count_at c j < count_at c b))
   \<or> (fst (selectBase c sumBest sumSecond) = CHR ''N'' \<and> (\<forall>j<4. count_at c j = 0))"
  using select_scan_inv [of c]
  unfolding select_inv_def selectBase_def Let_def by auto

theorem selectBase_winner_witness:
  "fst (selectBase \<lparr>count0 = 2, count1 = 7, count2 = 7, count3 = 1\<rparr> 0 0) = CHR ''C''"
  using selectBase_winner [of "\<lparr>count0 = 2, count1 = 7, count2 = 7, count3 = 1\<rparr>" 0 0]
  by (auto simp add: all_less_4 ex_less_4 count_at_def codeToBase_def dest: spec [of _ 1])

text \<open>
  Claim C8: for every table whose four counters are all zero, \<^verbatim>\<open>selectBase\<close> returns the
  undetermined marker \<^verbatim>\<open>'N'\<close> and leaves both running totals as they were (it adds 0 to
  each).
\<close>

theorem selectBase_zero_depth:
  "(\<forall>j<4. count_at c j = 0) \<Longrightarrow>
   selectBase c sumBest sumSecond = (CHR ''N'', sumBest + 0, sumSecond + 0)"
  by (simp add: selectBase_def select_scan_zero) (simp add: select_init_def)

theorem selectBase_zero_depth_witness:
  "count_sum BaseCount_init = 0 \<and> selectBase BaseCount_init 7 2 = (CHR ''N'', 7, 2)"
proof -
  have zero: "\<forall>j<4. count_at BaseCount_init j = 0"
    by (simp add: BaseCount_init_def count_at_def)
  show ?thesis
    using selectBase_zero_depth [OF zero, of 7 2]
    by (simp add: BaseCount_init_def count_sum_def)
qed

section \<open>Properties of readContigs\<close>

text \<open>
  Claim C3, on a contig file that starts with a colour-space contig. The claim reads: in
  a run that converts colour space to nucleotides every table is created one longer than
  its sequence. The run below detects colour space at its first contig and sets
  \<^verbatim>\<open>csToNt\<close>, but the table of that first contig was sized before the detection, so it
  has the length of the sequence (4); the table of the second contig is one longer (5).
\<close>

theorem readContigs_first_table:
  "map_sum id (\<lambda>(opt, g). (csToNt opt, map_option (\<lambda>c. length (counts c)) (g ''0''),
        map_option (\<lambda>c. length (counts c)) (g ''1'')))
     (readContigs \<lparr>csToNt = False, colourSpace = False, outputCS = 0, onlyVariants = 0, verbose = 0\<rparr>
        [\<lparr>rec_id = ''0'', rec_seq = ''0123'', rec_coverage = 0, rec_text = []\<rparr>,
         \<lparr>rec_id = ''1'', rec_seq = ''0123'', rec_coverage = 0, rec_text = []\<rparr>])
   = Inr (True, Some 4, Some 5)"
  by (simp add: readContigs_def readContigs_step_def isdigit_def seq_at_def Let_def)

section \<open>Properties of consensus\<close>

lemma selectBase_char:
  "fst (selectBase c sb ss) \<in> {CHR ''N'', CHR ''A'', CHR ''C'', CHR ''G'', CHR ''T''}"
  by (simp add: selectBase_def codeToBase_def Let_def)

lemma tolower_bases:
  "tolower CHR ''A'' = CHR ''a''" "tolower CHR ''C'' = CHR ''c''" "tolower CHR ''G'' = CHR ''g''"
  "tolower CHR ''T'' = CHR ''t''" "tolower CHR ''N'' = CHR ''n''"
  by code_simp+

lemma tolower_called:
  "ch \<in> {CHR ''N'', CHR ''A'', CHR ''C'', CHR ''G'', CHR ''T''} \<Longrightarrow> tolower ch \<notin> set ''ACGT''"
  by (auto simp: tolower_bases)

lemma find_first_from_None:
  "find_first_from i s cs = None \<longleftrightarrow> (\<forall>c\<in>set s. c \<notin> set cs)"
  by (induction s arbitrary: i) auto

lemma writePileup_is_pileup: "\<forall>e\<in>set (writePileup opt ident pos refc g c). is_pileup e"
  by (simp add: writePileup_def is_pileup_def Let_def)

lemma call_bases_pileup:
  "call_bases opt pp ident sq x cs sb ss = (out, sb', ss', evs) \<Longrightarrow> \<forall>e\<in>set evs. is_pileup e"
proof (induction cs arbitrary: x sb ss out sb' ss' evs)
  case Nil
  then show ?case by simp
next
  case (Cons c cs)
  obtain ch sb1 ss1 where sel: "selectBase c sb ss = (ch, sb1, ss1)"
    by (cases "selectBase c sb ss") auto
  obtain out2 sb2 ss2 evs2 where rest: "call_bases opt pp ident sq (Suc x) cs sb1 ss1 = (out2, sb2, ss2, evs2)"
    by (cases "call_bases opt pp ident sq (Suc x) cs sb1 ss1") auto
  from Cons.IH [OF rest] have "\<forall>e\<in>set evs2. is_pileup e" .
  moreover from Cons.prems sel rest
  have "evs = (if pp \<noteq> [] then writePileup opt ident x (seq_at sq x) ch c else []) @ evs2"
    by (simp add: Let_def)
  ultimately show ?case
    using writePileup_is_pileup [of opt ident x "seq_at sq x" ch c] by auto
qed

lemma call_bases_lowercase:
  "call_bases opt pp ident sq x cs sb ss = (out, sb', ss', evs) \<Longrightarrow>
   \<forall>k<length cs. islower (seq_at sq (x + k)) \<Longrightarrow> \<forall>ch\<in>set out. ch \<notin> set ''ACGT''"
proof (induction cs arbitrary: x sb ss out sb' ss' evs)
  case Nil
  then show ?case by simp
next
  case (Cons c cs)
  obtain ch sb1 ss1 where sel: "selectBase c sb ss = (ch, sb1, ss1)"
    by (cases "selectBase c sb ss") auto
  obtain out2 sb2 ss2 evs2 where rest: "call_bases opt pp ident sq (Suc x) cs sb1 ss1 = (out2, sb2, ss2, evs2)"
    by (cases "call_bases opt pp ident sq (Suc x) cs sb1 ss1") auto
  have "\<forall>k<length cs. islower (seq_at sq (Suc x + k))"
  proof (intro allI impI)
    fix k assume "k < length cs"
    then have "Suc k < length (c # cs)" by simp
    with Cons.prems(2) have "islower (seq_at sq (x + Suc k))" by blast
    then show "islower (seq_at sq (Suc x + k))" by simp
  qed
  from Cons.IH [OF rest this] have tail: "\<forall>ch\<in>set out2. ch \<notin> set ''ACGT''" .
  from Cons.prems(2) have low: "islower (seq_at sq x)" by force
  have "ch \<in> {CHR ''N'', CHR ''A'', CHR ''C'', CHR ''G'', CHR ''T''}"
    using selectBase_char [of c sb ss] sel by simp
  then have head: "tolower ch \<notin> set ''ACGT''" by (rule tolower_called)
  from Cons.prems(1) sel rest low have "out = tolower ch # out2"
    by (simp add: Let_def)
  with head tail show ?case by simp
qed

lemma bitlen_small: "bitlen 1 = 1" "bitlen 2 = 2" "bitlen 3 = 2" "bitlen 9 = 4" "bitlen 10 = 4"
  by code_simp+

lemma low_agreement_9_1: "low_agreement (percentAgreement 9 1)"
proof -
  have "float_quotient 9 10 = 7549747 / 8388608"
    by (simp add: float_quotient_def bitlen_small pow2_def round_div_def)
  then show ?thesis
    by (simp add: percentAgreement_def float_of_unsigned_def bitlen_small float_div_def
        low_agreement_def double_point_nine_def)
qed

lemma low_agreement_2_1: "low_agreement (percentAgreement 2 1)"
proof -
  have "float_quotient 2 3 = 11184811 / 16777216"
    by (simp add: float_quotient_def bitlen_small pow2_def round_div_def)
  then show ?thesis
    by (simp add: percentAgreement_def float_of_unsigned_def bitlen_small float_div_def
        low_agreement_def double_point_nine_def)
qed

text \<open>
  The rounding on values that are known: one third in single precision is
  \<open>11184811 / 2 ^ 25\<close> (the bit pattern 3EAAAAAB), and \<open>2 ^ 24 + 1\<close> is converted to
  \<open>2 ^ 24\<close>. Ten votes against one pass the agreement test.
\<close>

lemma float_quotient_third: "float_quotient 1 3 = 11184811 / 33554432"
  by (simp add: float_quotient_def bitlen_small pow2_def round_div_def)

lemma float_of_unsigned_tie: "float_of_unsigned 16777217 = 16777216"
proof -
  have "bitlen 16777217 = 25" by code_simp
  then show ?thesis by (simp add: float_of_unsigned_def)
qed

lemma not_low_agreement_10_1: "\<not> low_agreement (percentAgreement 10 1)"
proof -
  have b: "bitlen 11 = 4" by code_simp
  have "float_quotient 10 11 = 15252015 / 16777216"
    by (simp add: float_quotient_def bitlen_small b pow2_def round_div_def)
  then show ?thesis
    by (simp add: percentAgreement_def float_of_unsigned_def bitlen_small b float_div_def
        low_agreement_def double_point_nine_def)
qed

lemma selectBase_1_9: "selectBase \<lparr>count0 = 1, count1 = 9, count2 = 0, count3 = 0\<rparr> 0 0 = (CHR ''C'', 9, 1)"
  by (simp add: selectBase_def select_scan_def select_step_def select_init_def count_at_def codeToBase_def)

lemma selectBase_1_2: "selectBase \<lparr>count0 = 1, count1 = 2, count2 = 0, count3 = 0\<rparr> 0 0 = (CHR ''C'', 2, 1)"
  by (simp add: selectBase_def select_scan_def select_step_def select_init_def count_at_def codeToBase_def)

lemma selectBase_init: "selectBase BaseCount_init sb ss = (CHR ''N'', sb, ss)"
  by (simp add: selectBase_def select_scan_def select_step_def select_init_def count_at_def BaseCount_init_def)

lemma verbose_table_no_write:
  "verbose_table cs ident outSeq cc js = Inr vs \<Longrightarrow> filter is_write vs = []"
  by (induction js arbitrary: vs) (auto simp: is_write_def split: if_splits sum.splits)

lemma pileup_no_write: "list_all is_pileup pile \<Longrightarrow> filter is_write pile = []"
  by (induction pile) (auto simp: is_pileup_def is_write_def split: event.splits)

text \<open>
  Claim C4, as the code has it: a contig whose called string holds a determined base and
  whose agreement test fails (the quotient is a NaN or below \<^verbatim>\<open>.9\<close>) is never written to
  the consensus output and never repaired, and the pass over it returns. Outside
  colour-space conversion nothing but its pile-up lines is produced: no warning and no
  verbose table. In colour-space conversion the pile-up lines are followed by the warning
  when the verbosity is at least 1, and by the verbose table.
\<close>

theorem consensus_low_agreement:
  assumes cb: "call_bases opt pileupPath ident (seq cc) 0 (counts cc) 0 0 = (outSeq, sumBest, sumSecond, pile)"
      and det: "find_first_of outSeq ''ACGT'' \<noteq> None"
      and low: "low_agreement (percentAgreement sumBest sumSecond)"
  shows "consensus_contig cs2nt opt pileupPath ident cc \<noteq> None
       \<and> written (consensus_contig cs2nt opt pileupPath ident cc) = []
       \<and> (\<not> csToNt opt \<longrightarrow> consensus_contig cs2nt opt pileupPath ident cc = Some (Inr pile))
       \<and> (csToNt opt \<longrightarrow>
            (case verbose_block opt ident outSeq cc of
               Inl e \<Rightarrow> consensus_contig cs2nt opt pileupPath ident cc = Some (Inl e)
             | Inr vs \<Rightarrow> consensus_contig cs2nt opt pileupPath ident cc
                  = Some (Inr (pile @ (if verbose opt > 0 then [WarnLowAgreement ident] else []) @ vs))))"
proof -
  have pile: "filter is_write pile = []"
    using call_bases_pileup [OF cb] by (simp add: pileup_no_write list_all_iff)
  have vb: "filter is_write vs = []" if "verbose_block opt ident outSeq cc = Inr vs" for vs
    using that verbose_table_no_write by (auto simp: verbose_block_def split: if_splits)
  show ?thesis
  proof (cases "csToNt opt")
    case False
    with cb det low have "consensus_contig cs2nt opt pileupPath ident cc = Some (Inr pile)"
      by (simp add: consensus_contig_def)
    with False pile show ?thesis by (simp add: written_def)
  next
    case True
    show ?thesis
    proof (cases "verbose_block opt ident outSeq cc")
      case (Inl e)
      with True cb det low have "consensus_contig cs2nt opt pileupPath ident cc = Some (Inl e)"
        by (simp add: consensus_contig_def)
      with True Inl show ?thesis by (simp add: written_def)
    next
      case (Inr vs)
      with True cb det low have "consensus_contig cs2nt opt pileupPath ident cc
          = Some (Inr (pile @ (if verbose opt > 0 then [WarnLowAgreement ident] else []) @ vs))"
        by (simp add: consensus_contig_def)
      with True Inr pile vb [OF Inr] show ?thesis by (simp add: written_def is_write_def)
    qed
  qed
qed

theorem consensus_low_agreement_witness:
  "consensus_contig (\<lambda>a b. Inr a)
      \<lparr>csToNt = False, colourSpace = False, outputCS = 0, onlyVariants = 0, verbose = 2\<rparr>
      [] ''ctg'' \<lparr>seq = ''C'', coverage = 0, comment = [],
          counts = [\<lparr>count0 = 1, count1 = 2, count2 = 0, count3 = 0\<rparr>]\<rparr> = Some (Inr [])
   \<and> consensus_contig (\<lambda>a b. Inr a)
      \<lparr>csToNt = True, colourSpace = False, outputCS = 0, onlyVariants = 0, verbose = 2\<rparr>
      [] ''ctg'' \<lparr>seq = ''00'', coverage = 0, comment = [],
          counts = [\<lparr>count0 = 1, count1 = 2, count2 = 0, count3 = 0\<rparr>, BaseCount_init, BaseCount_init]\<rparr>
     = Some (Inr [WarnLowAgreement ''ctg'',
          VerboseColour ''ctg'' 3 0 CHR ''C'' CHR ''N'' CHR ''0''
            \<lparr>count0 = 1, count1 = 2, count2 = 0, count3 = 0\<rparr>,
          VerboseColour ''ctg'' 3 1 CHR ''N'' CHR ''N'' CHR ''0'' BaseCount_init])"
proof -
  let ?nt = "\<lparr>csToNt = False, colourSpace = False, outputCS = 0, onlyVariants = 0, verbose = 2\<rparr>"
  let ?cs = "\<lparr>csToNt = True, colourSpace = False, outputCS = 0, onlyVariants = 0, verbose = 2\<rparr>"
  let ?c1 = "\<lparr>seq = ''C'', coverage = 0, comment = [],
          counts = [\<lparr>count0 = 1, count1 = 2, count2 = 0, count3 = 0\<rparr>]\<rparr>"
  let ?c2 = "\<lparr>seq = ''00'', coverage = 0, comment = [],
          counts = [\<lparr>count0 = 1, count1 = 2, count2 = 0, count3 = 0\<rparr>, BaseCount_init, BaseCount_init]\<rparr>"
  have cb1: "call_bases ?nt [] ''ctg'' (seq ?c1) 0 (counts ?c1) 0 0 = (''C'', 2, 1, [])"
    by (simp add: selectBase_1_2 seq_at_def islower_def)
  have cb2: "call_bases ?cs [] ''ctg'' (seq ?c2) 0 (counts ?c2) 0 0 = (''CNN'', 2, 1, [])"
    by (simp add: selectBase_1_2 selectBase_init seq_at_def islower_def)
  have det1: "find_first_of ''C'' ''ACGT'' \<noteq> None" and det2: "find_first_of ''CNN'' ''ACGT'' \<noteq> None"
    by (simp_all add: find_first_of_def)
  have vb: "verbose_block ?cs ''ctg'' ''CNN'' ?c2 =
      Inr [VerboseColour ''ctg'' 3 0 CHR ''C'' CHR ''N'' CHR ''0''
            \<lparr>count0 = 1, count1 = 2, count2 = 0, count3 = 0\<rparr>,
          VerboseColour ''ctg'' 3 1 CHR ''N'' CHR ''N'' CHR ''0'' BaseCount_init]"
    by (simp add: verbose_block_def upt_rec)
  have nt: "consensus_contig (\<lambda>a b. Inr a) ?nt [] ''ctg'' ?c1 = Some (Inr [])"
    using consensus_low_agreement [OF cb1 det1 low_agreement_2_1, of "\<lambda>a b. Inr a"]
    by simp
  have cs: "consensus_contig (\<lambda>a b. Inr a) ?cs [] ''ctg'' ?c2 =
      Some (Inr [WarnLowAgreement ''ctg'',
          VerboseColour ''ctg'' 3 0 CHR ''C'' CHR ''N'' CHR ''0''
            \<lparr>count0 = 1, count1 = 2, count2 = 0, count3 = 0\<rparr>,
          VerboseColour ''ctg'' 3 1 CHR ''N'' CHR ''N'' CHR ''0'' BaseCount_init])"
    using consensus_low_agreement [OF cb2 det2 low_agreement_2_1, of "\<lambda>a b. Inr a"]
    by (simp add: vb)
  from nt cs show ?thesis by (rule conjI)
qed

text \<open>
  Claim C4 as stated fails. It reads: below the threshold a contig is dropped with a
  warning outside colour-space conversion, and in colour-space conversion it is retained
  with a warning and still repaired. In colour-space conversion the contig below, with
  two votes against one, yields the warning alone: it is neither written nor repaired.
  Outside colour-space conversion the same votes yield nothing, at verbosity 2: there is
  no warning.
\<close>

theorem consensus_low_agreement_counterexample:
  "consensus_contig (\<lambda>a b. Inr a)
      \<lparr>csToNt = True, colourSpace = False, outputCS = 0, onlyVariants = 0, verbose = 1\<rparr>
      [] ''ctg'' \<lparr>seq = ''00'', coverage = 0, comment = [],
          counts = [\<lparr>count0 = 1, count1 = 2, count2 = 0, count3 = 0\<rparr>, BaseCount_init, BaseCount_init]\<rparr>
     = Some (Inr [WarnLowAgreement ''ctg''])
   \<and> consensus_contig (\<lambda>a b. Inr a)
      \<lparr>csToNt = False, colourSpace = False, outputCS = 0, onlyVariants = 0, verbose = 2\<rparr>
      [] ''ctg'' \<lparr>seq = ''C'', coverage = 0, comment = [],
          counts = [\<lparr>count0 = 1, count1 = 2, count2 = 0, count3 = 0\<rparr>]\<rparr> = Some (Inr [])"
proof -
  have cs: "call_bases \<lparr>csToNt = True, colourSpace = False, outputCS = 0, onlyVariants = 0, verbose = 1\<rparr>
      [] ''ctg'' ''00'' 0 [\<lparr>count0 = 1, count1 = 2, count2 = 0, count3 = 0\<rparr>, BaseCount_init, BaseCount_init] 0 0
      = (''CNN'', 2, 1, [])"
    by (simp add: selectBase_1_2 selectBase_init seq_at_def islower_def)
  have nt: "call_bases \<lparr>csToNt = False, colourSpace = False, outputCS = 0, onlyVariants = 0, verbose = 2\<rparr>
      [] ''ctg'' ''C'' 0 [\<lparr>count0 = 1, count1 = 2, count2 = 0, count3 = 0\<rparr>] 0 0 = (''C'', 2, 1, [])"
    by (simp add: selectBase_1_2 seq_at_def islower_def)
  from cs nt show ?thesis
    by (simp add: consensus_contig_def low_agreement_2_1 find_first_of_def verbose_block_def)
qed

text \<open>
  Claim C6, at the boundary. The claim reads: a contig with a determined base is written
  if and only if its percent agreement is at least 0.90, and one at exactly 0.90 is
  accepted. With nine best votes and one second vote the quotient 9/10 is rounded to
  single precision, which is below the double-precision literal \<^verbatim>\<open>.9\<close> it is compared
  with, so the test \<^verbatim>\<open>percentAgreement < .9\<close> holds and nothing is written.
\<close>

theorem consensus_exact_threshold:
  "consensus_contig cs2nt \<lparr>csToNt = False, colourSpace = False, outputCS = 0, onlyVariants = 0, verbose = 0\<rparr>
      [] ''ctg'' \<lparr>seq = ''C'', coverage = 0, comment = [],
          counts = [\<lparr>count0 = 1, count1 = 9, count2 = 0, count3 = 0\<rparr>]\<rparr> = Some (Inr [])"
proof -
  have "call_bases \<lparr>csToNt = False, colourSpace = False, outputCS = 0, onlyVariants = 0, verbose = 0\<rparr>
      [] ''ctg'' ''C'' 0 [\<lparr>count0 = 1, count1 = 9, count2 = 0, count3 = 0\<rparr>] 0 0 = (''C'', 9, 1, [])"
    by (simp add: selectBase_1_9 seq_at_def islower_def)
  then show ?thesis
    by (simp add: consensus_contig_def low_agreement_9_1 find_first_of_def)
qed

text \<open>
  Claim C10: the acceptance test looks for the uppercase characters A, C, G, T only. A
  contig whose draft sequence is lowercase at every position of its table has lowercase
  called bases, so it counts as having no determined base: whatever the options and the
  votes, the pass returns, its output is the pile-up lines of the contig followed by the
  warning that the contig was omitted when the verbosity is at least 1 and by nothing
  otherwise. No record is written and the repair is not run.
\<close>

theorem consensus_lowercase_omitted:
  assumes "\<forall>x<length (counts cc). islower (seq_at (seq cc) x)"
  shows "\<exists>pile. consensus_contig cs2nt opt pileupPath ident cc
            = Some (Inr (pile @ (if verbose opt > 0 then [WarnOmitted ident] else [])))
          \<and> list_all is_pileup pile"
proof -
  obtain out sb ss pile where cb:
    "call_bases opt pileupPath ident (seq cc) 0 (counts cc) 0 0 = (out, sb, ss, pile)"
    by (cases "call_bases opt pileupPath ident (seq cc) 0 (counts cc) 0 0") auto
  from assms have "\<forall>k<length (counts cc). islower (seq_at (seq cc) (0 + k))" by simp
  from call_bases_lowercase [OF cb this] have "find_first_of out ''ACGT'' = None"
    unfolding find_first_of_def find_first_from_None .
  then have "consensus_contig cs2nt opt pileupPath ident cc
      = Some (Inr (pile @ (if verbose opt > 0 then [WarnOmitted ident] else [])))"
    by (simp add: consensus_contig_def cb)
  moreover have "list_all is_pileup pile"
    using call_bases_pileup [OF cb] by (simp add: list_all_iff)
  ultimately show ?thesis by blast
qed

theorem consensus_lowercase_omitted_witness:
  "\<exists>pile. consensus_contig (\<lambda>a b. Inr a)
      \<lparr>csToNt = False, colourSpace = False, outputCS = 0, onlyVariants = 0, verbose = 1\<rparr>
      ''pileup.txt'' ''ctg'' \<lparr>seq = ''ac'', coverage = 0, comment = ''x'',
          counts = [\<lparr>count0 = 3, count1 = 0, count2 = 0, count3 = 0\<rparr>,
                    \<lparr>count0 = 0, count1 = 2, count2 = 0, count3 = 0\<rparr>]\<rparr>
    = Some (Inr (pile @ [WarnOmitted ''ctg'']))"
proof -
  let ?cc = "\<lparr>seq = ''ac'', coverage = 0, comment = ''x'',
          counts = [\<lparr>count0 = 3, count1 = 0, count2 = 0, count3 = 0\<rparr>,
                    \<lparr>count0 = 0, count1 = 2, count2 = 0, count3 = 0\<rparr>]\<rparr>"
  have low: "\<forall>x<length (counts ?cc). islower (seq_at (seq ?cc) x)"
    by (simp add: seq_at_def islower_def less_Suc_eq numeral_2_eq_2)
  show ?thesis
    using consensus_lowercase_omitted [OF low, of "\<lambda>a b. Inr a"
        "\<lparr>csToNt = False, colourSpace = False, outputCS = 0, onlyVariants = 0, verbose = 1\<rparr>"
        "''pileup.txt''" "''ctg''"]
    by auto
qed

section \<open>Properties of buildBaseQuality\<close>

subsection \<open>Accumulation shifts the counters and keeps the rest\<close>

lemma error_eq: "(e::error) = Abort"
  by (cases e) simp

lemma count_at_incr:
  "b < 4 \<Longrightarrow> count_at (count_incr bc base) b = count_at bc b + (if b = min base 3 then 1 else 0)"
  by (auto simp: count_at_def count_incr_def less_4_cases)

lemma BaseCount_eqI:
  fixes x y :: BaseCount
  assumes "\<forall>b<4. count_at x b = count_at y b"
  shows "x = y"
  using assms by (cases x, cases y) (simp add: all_less_4 count_at_def)

lemma counts_shifted_unique:
  assumes "counts_shifted d cv r" and "counts_shifted d cv r'"
  shows "r = r'"
proof (rule nth_equalityI)
  show "length r = length r'"
    using assms by (simp add: counts_shifted_def)
next
  fix loc assume "loc < length r"
  with assms have "\<forall>b<4. count_at (r ! loc) b = count_at (r' ! loc) b"
    by (simp add: counts_shifted_def)
  then show "r ! loc = r' ! loc" by (rule BaseCount_eqI)
qed

lemma counts_shifted_trans:
  "counts_shifted d cv r \<Longrightarrow> counts_shifted d' r r' \<Longrightarrow>
   counts_shifted (\<lambda>loc b. d loc b + d' loc b) cv r'"
  by (simp add: counts_shifted_def add.assoc)

lemma counts_shifted_diff:
  "length r = length cv \<Longrightarrow>
   counts_shifted (\<lambda>loc b. count_at (r ! loc) b - count_at (cv ! loc) b) cv r"
  by (simp add: counts_shifted_def)

lemma counts_shifted_incr:
  assumes "counts_shifted d cv cv'" and "loc < length cv"
  shows "counts_shifted d (cv[loc := count_incr (cv ! loc) base])
           (cv'[loc := count_incr (cv' ! loc) base])"
  using assms by (auto simp: counts_shifted_def nth_list_update count_at_incr)

lemma pileup_loop_length:
  "pileup_loop s a read_max x cv = Inr r \<Longrightarrow> length r = length cv"
proof (induction s a read_max x cv rule: pileup_loop.induct)
  case (1 s a read_max x cv)
  show ?case
  proof (cases "x < read_max")
    case False
    with "1.prems" show ?thesis by simp
  next
    case True
    with "1.prems" obtain base where base: "baseToCode (seq_at s (nat x)) = Some base"
      by (cases "baseToCode (seq_at s (nat x))") auto
    with "1.prems" True have inside: "pileup_loc a x < length cv"
      by (auto split: if_splits)
    with "1.prems" True base have
      "pileup_loop s a read_max (x + 1) (cv[pileup_loc a x := count_incr (cv ! pileup_loc a x) base]) = Inr r"
      by simp
    from "1.IH" [OF True base inside this] show ?thesis by simp
  qed
qed

lemma pileup_loop_shifted:
  "counts_shifted d cv cv' \<Longrightarrow>
   rel_sum (=) (counts_shifted d) (pileup_loop s a read_max x cv) (pileup_loop s a read_max x cv')"
proof (induction s a read_max x cv arbitrary: cv' rule: pileup_loop.induct)
  case (1 s a read_max x cv)
  from "1.prems" have len: "length cv' = length cv" by (simp add: counts_shifted_def)
  show ?case
  proof (cases "x < read_max")
    case False
    with "1.prems" show ?thesis by simp
  next
    case True
    show ?thesis
    proof (cases "baseToCode (seq_at s (nat x))")
      case None
      with True show ?thesis by simp
    next
      case (Some base)
      show ?thesis
      proof (cases "pileup_loc a x < length cv")
        case False
        with True Some len show ?thesis by simp
      next
        case inside: True
        have "rel_sum (=) (counts_shifted d)
            (pileup_loop s a read_max (x + 1) (cv[pileup_loc a x := count_incr (cv ! pileup_loc a x) base]))
            (pileup_loop s a read_max (x + 1) (cv'[pileup_loc a x := count_incr (cv' ! pileup_loc a x) base]))"
          by (rule "1.IH" [OF True Some inside]) (rule counts_shifted_incr [OF "1.prems" inside])
        moreover have "pileup_loop s a read_max x cv =
            pileup_loop s a read_max (x + 1) (cv[pileup_loc a x := count_incr (cv ! pileup_loc a x) base])"
          using True Some inside by simp
        moreover have "pileup_loop s a read_max x cv' =
            pileup_loop s a read_max (x + 1) (cv'[pileup_loc a x := count_incr (cv' ! pileup_loc a x) base])"
          using True Some inside len by simp
        ultimately show ?thesis by simp
      qed
    qed
  qed
qed

lemma shifted_refl: "shifted (\<lambda>i loc b. 0) g g"
proof -
  have "counts_shifted (\<lambda>loc b. 0) cv cv" for cv
    by (simp add: counts_shifted_def)
  then have "\<exists>cv'. Some c = Some (c\<lparr>counts := cv'\<rparr>) \<and> counts_shifted (\<lambda>loc b. 0) (counts c) cv'"
    for c :: ContigCount
    by (intro exI [of _ "counts c"]) simp
  then show ?thesis
    by (auto simp: shifted_def split: option.splits)
qed

lemma shifted_None: "shifted d g h \<Longrightarrow> g i = None \<Longrightarrow> h i = None"
  by (auto simp: shifted_def split: option.splits dest: spec [of _ i])

lemma shifted_Some:
  "shifted d g h \<Longrightarrow> g i = Some c \<Longrightarrow>
   \<exists>cv'. h i = Some (c\<lparr>counts := cv'\<rparr>) \<and> counts_shifted (d i) (counts c) cv'"
  by (auto simp: shifted_def split: option.splits dest: spec [of _ i])

lemma shiftedI:
  assumes "\<And>i. g i = None \<Longrightarrow> h i = None"
    and "\<And>i c. g i = Some c \<Longrightarrow>
          \<exists>cv'. h i = Some (c\<lparr>counts := cv'\<rparr>) \<and> counts_shifted (d i) (counts c) cv'"
  shows "shifted d g h"
  using assms by (auto simp: shifted_def split: option.splits)

lemma shifted_unique:
  assumes "shifted d g h" and "shifted d g h'"
  shows "h = h'"
proof
  fix i
  show "h i = h' i"
  proof (cases "g i")
    case None
    with assms show ?thesis by (simp add: shifted_None)
  next
    case (Some c)
    from shifted_Some [OF assms(1) Some] obtain cv where
      h: "h i = Some (c\<lparr>counts := cv\<rparr>)" and cv: "counts_shifted (d i) (counts c) cv" by blast
    from shifted_Some [OF assms(2) Some] obtain cv' where
      h': "h' i = Some (c\<lparr>counts := cv'\<rparr>)" and cv': "counts_shifted (d i) (counts c) cv'" by blast
    from cv cv' have "cv = cv'" by (rule counts_shifted_unique)
    with h h' show ?thesis by simp
  qed
qed

lemma shifted_trans:
  assumes "shifted d g h" and "shifted d' h k"
  shows "shifted (\<lambda>i loc b. d i loc b + d' i loc b) g k"
proof (rule shiftedI)
  fix i assume "g i = None"
  with assms show "k i = None" by (simp add: shifted_None)
next
  fix i c assume g: "g i = Some c"
  from shifted_Some [OF assms(1) g] obtain cv where
    h: "h i = Some (c\<lparr>counts := cv\<rparr>)" and cv: "counts_shifted (d i) (counts c) cv" by blast
  from shifted_Some [OF assms(2) h] obtain cv' where
    k: "k i = Some (c\<lparr>counts := cv, counts := cv'\<rparr>)"
    and cv': "counts_shifted (d' i) cv cv'" by auto
  from cv cv' have "counts_shifted (\<lambda>loc b. d i loc b + d' i loc b) (counts c) cv'"
    by (rule counts_shifted_trans)
  with k show "\<exists>cv'. k i = Some (c\<lparr>counts := cv'\<rparr>)
      \<and> counts_shifted (\<lambda>loc b. d i loc b + d' i loc b) (counts c) cv'"
    by auto
qed

lemma shifted_update:
  assumes "shifted d g h" and "g i = Some c" and "h i = Some c'"
    and "counts_shifted (d i) r r'"
  shows "shifted d (g(i \<mapsto> c\<lparr>counts := r\<rparr>)) (h(i \<mapsto> c'\<lparr>counts := r'\<rparr>))"
proof (rule shiftedI)
  fix j assume "(g(i \<mapsto> c\<lparr>counts := r\<rparr>)) j = None"
  then have "j \<noteq> i" and "g j = None" by (auto split: if_splits)
  with assms(1) show "(h(i \<mapsto> c'\<lparr>counts := r'\<rparr>)) j = None"
    by (simp add: shifted_None)
next
  fix j cj assume gj: "(g(i \<mapsto> c\<lparr>counts := r\<rparr>)) j = Some cj"
  show "\<exists>cv'. (h(i \<mapsto> c'\<lparr>counts := r'\<rparr>)) j = Some (cj\<lparr>counts := cv'\<rparr>)
      \<and> counts_shifted (d j) (counts cj) cv'"
  proof (cases "j = i")
    case True
    with gj have cj: "cj = c\<lparr>counts := r\<rparr>" by simp
    from shifted_Some [OF assms(1,2)] assms(3) obtain cv where "c' = c\<lparr>counts := cv\<rparr>" by auto
    with True cj assms(4) show ?thesis by auto
  next
    case False
    with gj have "g j = Some cj" by simp
    from shifted_Some [OF assms(1) this] False show ?thesis by simp
  qed
qed

lemma pileup_alignment_shifted:
  assumes "shifted d g h" and same: "oriented stale g sq a0 = oriented stale h sq a0"
  shows "rel_sum (=) (shifted d)
           (pileup_alignment opt stale sq g a0) (pileup_alignment opt stale sq h a0)"
proof -
  obtain s a where ori: "oriented stale g sq a0 = (s, a)"
    by (cases "oriented stale g sq a0") auto
  with same have ori': "oriented stale h sq a0 = (s, a)" by simp
  show ?thesis
  proof (cases "g (contig a)")
    case None
    with assms(1) have "h (contig a) = None" by (simp add: shifted_None)
    with None ori ori' assms(1) show ?thesis by (simp add: pileup_alignment_def)
  next
    case (Some cc)
    from shifted_Some [OF assms(1) Some] obtain cv' where
      h: "h (contig a) = Some (cc\<lparr>counts := cv'\<rparr>)"
      and cv': "counts_shifted (d (contig a)) (counts cc) cv'" by blast
    from cv' have len: "length cv' = length (counts cc)" by (simp add: counts_shifted_def)
    obtain read_min read_max where win: "read_window opt (length (counts cc)) a = (read_min, read_max)"
      by (cases "read_window opt (length (counts cc)) a") auto
    have loop: "rel_sum (=) (counts_shifted (d (contig a)))
        (pileup_loop s a read_max read_min (counts cc)) (pileup_loop s a read_max read_min cv')"
      using cv' by (rule pileup_loop_shifted)
    show ?thesis
    proof (cases "pileup_loop s a read_max read_min (counts cc)")
      case (Inl e)
      with loop obtain e' where "pileup_loop s a read_max read_min cv' = Inl e'"
        by (cases "pileup_loop s a read_max read_min cv'") auto
      with Inl ori ori' Some h win len show ?thesis
        by (simp add: pileup_alignment_def error_eq [of e] error_eq [of e'])
    next
      case (Inr r)
      with loop obtain r' where r': "pileup_loop s a read_max read_min cv' = Inr r'"
        and rr': "counts_shifted (d (contig a)) r r'"
        by (cases "pileup_loop s a read_max read_min cv'") auto
      have "shifted d (g(contig a \<mapsto> cc\<lparr>counts := r\<rparr>))
          (h(contig a \<mapsto> cc\<lparr>counts := cv'\<rparr>\<lparr>counts := r'\<rparr>))"
        using assms(1) Some h rr' by (rule shifted_update)
      with Inr r' ori ori' Some h win len show ?thesis
        by (simp add: pileup_alignment_def)
    qed
  qed
qed

lemma pileup_alignment_frame:
  assumes "pileup_alignment opt stale sq g a0 = Inr g'"
  shows "\<exists>d. shifted d g g'"
proof -
  obtain s a where ori: "oriented stale g sq a0 = (s, a)"
    by (cases "oriented stale g sq a0") auto
  show ?thesis
  proof (cases "g (contig a)")
    case None
    with assms ori have "g' = g" by (simp add: pileup_alignment_def)
    then show ?thesis using shifted_refl by blast
  next
    case (Some cc)
    obtain read_min read_max where win: "read_window opt (length (counts cc)) a = (read_min, read_max)"
      by (cases "read_window opt (length (counts cc)) a") auto
    from assms ori Some win obtain r where
      loop: "pileup_loop s a read_max read_min (counts cc) = Inr r"
      and g': "g' = g(contig a \<mapsto> cc\<lparr>counts := r\<rparr>)"
      by (auto simp: pileup_alignment_def split: if_splits sum.splits)
    from loop have "length r = length (counts cc)" by (rule pileup_loop_length)
    then have diff: "counts_shifted (\<lambda>loc b. count_at (r ! loc) b - count_at (counts cc ! loc) b)
        (counts cc) r"
      by (rule counts_shifted_diff)
    let ?d = "\<lambda>i. if i = contig a
        then (\<lambda>loc b. count_at (r ! loc) b - count_at (counts cc ! loc) b) else (\<lambda>loc b. 0)"
    have zero: "counts_shifted (\<lambda>loc b. 0) cv cv" for cv
      by (simp add: counts_shifted_def)
    have "shifted ?d g g'"
    proof (rule shiftedI)
      fix i assume "g i = None"
      with Some have "i \<noteq> contig a" by auto
      with \<open>g i = None\<close> show "g' i = None" by (simp add: g')
    next
      fix i c assume gi: "g i = Some c"
      show "\<exists>cv'. g' i = Some (c\<lparr>counts := cv'\<rparr>) \<and> counts_shifted (?d i) (counts c) cv'"
      proof (cases "i = contig a")
        case True
        with gi Some have "c = cc" by simp
        with True diff show ?thesis by (auto simp: g')
      next
        case False
        with gi have "g' i = Some (c\<lparr>counts := counts c\<rparr>)" by (simp add: g')
        moreover have "counts_shifted (?d i) (counts c) (counts c)"
          using False zero by simp
        ultimately show ?thesis by (intro exI [of _ "counts c"] conjI)
      qed
    qed
    then show ?thesis by blast
  qed
qed

lemma kstep_Inl: "kstep f x (Inl e) = Inl e"
  by (simp add: kstep_def)

lemma kstep_Inr: "kstep f x (Inr s) = f s x"
  by (simp add: kstep_def)

lemma fold_kstep_Inl: "fold (kstep f) xs (Inl e) = Inl e"
  by (induction xs) (simp_all add: kstep_Inl)

lemma pileup_alignments_fold:
  "pileup_alignments opt stale sq g als = fold (kstep (pileup_alignment opt stale sq)) als (Inr g)"
  by (induction als arbitrary: g) (auto simp: kstep_Inr fold_kstep_Inl split: sum.splits)

lemma accumulate_all_fold:
  "accumulate_all opt stale g rds = fold (kstep (accumulate opt stale)) rds (Inr g)"
  by (induction rds arbitrary: g) (auto simp: kstep_Inr fold_kstep_Inl split: sum.splits)

subsection \<open>Order of accumulation when the released memory does not change\<close>

text \<open>
  When what is read through the dangling pointer depends on the read and the alignment
  only (\<open>stale = (\<lambda>g. m)\<close>), an alignment aborts or not whatever the counters are, and
  any two alignment steps commute. This covers every input without a placement on the
  reverse strand, where the released memory is never read.
\<close>

lemma pileup_alignment_abort_shifted:
  assumes "shifted d g h" and "pileup_alignment opt (\<lambda>g. m) sq g a = Inl e"
  shows "pileup_alignment opt (\<lambda>g. m) sq h a = Inl Abort"
proof -
  have "oriented (\<lambda>g. m) g sq a = oriented (\<lambda>g. m) h sq a"
    by (simp add: oriented_def)
  from pileup_alignment_shifted [OF assms(1) this, of opt] assms(2)
  obtain e' where "pileup_alignment opt (\<lambda>g. m) sq h a = Inl e'"
    by (cases "pileup_alignment opt (\<lambda>g. m) sq h a") auto
  then show ?thesis by (simp add: error_eq [of e'])
qed

lemma pileup_alignment_success_shifted:
  assumes "shifted d g h" and "pileup_alignment opt (\<lambda>g. m) sq g a = Inr g'"
  shows "\<exists>h'. pileup_alignment opt (\<lambda>g. m) sq h a = Inr h' \<and> shifted d g' h'"
proof -
  have "oriented (\<lambda>g. m) g sq a = oriented (\<lambda>g. m) h sq a"
    by (simp add: oriented_def)
  from pileup_alignment_shifted [OF assms(1) this, of opt] assms(2)
  show ?thesis
    by (cases "pileup_alignment opt (\<lambda>g. m) sq h a") auto
qed

lemma pileup_alignment_commute:
  "kstep (pileup_alignment opt (\<lambda>g. m) sq) a (kstep (pileup_alignment opt (\<lambda>g. m) sq') a' st)
   = kstep (pileup_alignment opt (\<lambda>g. m) sq') a' (kstep (pileup_alignment opt (\<lambda>g. m) sq) a st)"
proof (cases st)
  case (Inl e)
  then show ?thesis by (simp add: kstep_Inl)
next
  case (Inr g)
  show ?thesis
  proof (cases "pileup_alignment opt (\<lambda>g. m) sq g a")
    case left: (Inl e)
    show ?thesis
    proof (cases "pileup_alignment opt (\<lambda>g. m) sq' g a'")
      case (Inl e')
      with left Inr show ?thesis
        by (simp add: kstep_Inl kstep_Inr error_eq [of e] error_eq [of e'])
    next
      case right: (Inr g2)
      then obtain d' where "shifted d' g g2" using pileup_alignment_frame by blast
      from pileup_alignment_abort_shifted [OF this left]
      have "pileup_alignment opt (\<lambda>g. m) sq g2 a = Inl Abort" .
      with left right Inr show ?thesis
        by (simp add: kstep_Inl kstep_Inr error_eq [of e])
    qed
  next
    case left: (Inr g1)
    then obtain d where d: "shifted d g g1" using pileup_alignment_frame by blast
    show ?thesis
    proof (cases "pileup_alignment opt (\<lambda>g. m) sq' g a'")
      case (Inl e')
      from pileup_alignment_abort_shifted [OF d Inl]
      have "pileup_alignment opt (\<lambda>g. m) sq' g1 a' = Inl Abort" .
      with left Inl Inr show ?thesis
        by (simp add: kstep_Inl kstep_Inr error_eq [of e'])
    next
      case right: (Inr g2)
      then obtain d' where d': "shifted d' g g2" using pileup_alignment_frame by blast
      from pileup_alignment_success_shifted [OF d' left]
      obtain h where h: "pileup_alignment opt (\<lambda>g. m) sq g2 a = Inr h" and gh: "shifted d' g1 h"
        by blast
      from pileup_alignment_success_shifted [OF d right]
      obtain k where k: "pileup_alignment opt (\<lambda>g. m) sq' g1 a' = Inr k" and gk: "shifted d g2 k"
        by blast
      have "shifted (\<lambda>i loc b. d i loc b + d' i loc b) g h"
        using d gh by (rule shifted_trans)
      moreover have "shifted (\<lambda>i loc b. d' i loc b + d i loc b) g k"
        using d' gk by (rule shifted_trans)
      then have "shifted (\<lambda>i loc b. d i loc b + d' i loc b) g k"
        by (simp add: add.commute)
      ultimately have "h = k" by (rule shifted_unique)
      with left right h k Inr show ?thesis
        by (simp add: kstep_Inr)
    qed
  qed
qed

lemma pileup_alignment_commute_comp:
  "kstep (pileup_alignment opt (\<lambda>g. m) sq) a \<circ> kstep (pileup_alignment opt (\<lambda>g. m) sq') a'
   = kstep (pileup_alignment opt (\<lambda>g. m) sq') a' \<circ> kstep (pileup_alignment opt (\<lambda>g. m) sq) a"
  by (rule ext, unfold o_apply, rule pileup_alignment_commute)

lemma folds_commute:
  assumes "\<And>x y. f x \<circ> f' y = f' y \<circ> f x"
  shows "fold f xs \<circ> fold f' ys = fold f' ys \<circ> fold f xs"
proof -
  have "fold f xs \<circ> f' y = f' y \<circ> fold f xs" for y
    by (rule fold_commute [symmetric]) (simp add: assms)
  then show ?thesis
    by (intro fold_commute) simp
qed

lemma kstep_accumulate:
  "kstep (accumulate opt stale) rd =
     (if csToNt opt \<and> \<not> anchored (snd rd) then id
      else fold (kstep (pileup_alignment opt stale (fst rd))) (snd rd))"
proof
  fix st
  show "kstep (accumulate opt stale) rd st =
     (if csToNt opt \<and> \<not> anchored (snd rd) then id
      else fold (kstep (pileup_alignment opt stale (fst rd))) (snd rd)) st"
    by (cases st; cases rd)
      (simp_all add: kstep_Inl kstep_Inr fold_kstep_Inl accumulate_def pileup_alignments_fold)
qed

lemma accumulate_commute:
  "kstep (accumulate opt (\<lambda>g. m)) rd \<circ> kstep (accumulate opt (\<lambda>g. m)) rd'
   = kstep (accumulate opt (\<lambda>g. m)) rd' \<circ> kstep (accumulate opt (\<lambda>g. m)) rd"
proof -
  have "fold (kstep (pileup_alignment opt (\<lambda>g. m) sq)) als
        \<circ> fold (kstep (pileup_alignment opt (\<lambda>g. m) sq')) als'
      = fold (kstep (pileup_alignment opt (\<lambda>g. m) sq')) als'
        \<circ> fold (kstep (pileup_alignment opt (\<lambda>g. m) sq)) als"
    for sq sq' als als'
    by (rule folds_commute) (rule pileup_alignment_commute_comp)
  then show ?thesis
    unfolding kstep_accumulate by (simp del: o_apply add: fun_eq_iff [where 'b = "error + ContigMap"])
qed

lemma accumulate_line_key:
  assumes "line_key rd = line_key rd'"
  shows "kstep (accumulate opt (\<lambda>g. m)) rd = kstep (accumulate opt (\<lambda>g. m)) rd'"
proof -
  from assms have sq: "fst rd = fst rd'" and ms: "mset (snd rd) = mset (snd rd')"
    by (simp_all add: line_key_def)
  from ms have "set (snd rd) = set (snd rd')" by (rule mset_eq_setD)
  then have anc: "anchored (snd rd) = anchored (snd rd')" by (simp add: anchored_def)
  have "fold (kstep (pileup_alignment opt (\<lambda>g. m) (fst rd))) (snd rd)
      = fold (kstep (pileup_alignment opt (\<lambda>g. m) (fst rd))) (snd rd')"
    using pileup_alignment_commute_comp ms by (rule fold_multiset_equiv)
  with sq anc show ?thesis by (simp add: kstep_accumulate)
qed

lemma fold_mset_map_equiv:
  assumes comm: "\<And>x y. f x \<circ> f y = f y \<circ> f x"
    and cong: "\<And>x y. n x = n y \<Longrightarrow> f x = f y"
    and eq: "mset (map n xs) = mset (map n ys)"
  shows "fold f xs = fold f ys"
  using eq
proof (induction xs arbitrary: ys)
  case Nil
  then show ?case by simp
next
  case (Cons x xs)
  from Cons.prems have "set (map n (x # xs)) = set (map n ys)" by (rule mset_eq_setD)
  then have "n x \<in> n ` set ys" by auto
  then obtain y where y: "y \<in> set ys" and nxy: "n y = n x" by auto
  from y have split: "mset (y # remove1 y ys) = mset ys" by simp
  have "add_mset (n x) (mset (map n xs)) = mset (map n (y # remove1 y ys))"
    using Cons.prems split by (metis mset.simps(2) list.simps(9) mset_map)
  with nxy have "mset (map n xs) = mset (map n (remove1 y ys))"
    by (simp del: mset_remove1 mset_map)
  then have IH: "fold f xs = fold f (remove1 y ys)" by (rule Cons.IH)
  have "fold f ys = fold f (y # remove1 y ys)"
    using comm split [symmetric] by (rule fold_multiset_equiv)
  also have "\<dots> = fold f (remove1 y ys) \<circ> f y" by simp
  also have "\<dots> = fold f xs \<circ> f x" using IH cong [OF nxy] by simp
  finally show ?case by simp
qed

lemma accumulate_all_permuted:
  assumes "mset (map line_key rds') = mset (map line_key rds)"
  shows "accumulate_all opt (\<lambda>g. m) g rds' = accumulate_all opt (\<lambda>g. m) g rds"
proof -
  have "fold (kstep (accumulate opt (\<lambda>g. m))) rds' = fold (kstep (accumulate opt (\<lambda>g. m))) rds"
    by (rule fold_mset_map_equiv [where f = "kstep (accumulate opt (\<lambda>g. m))" and n = line_key,
          OF accumulate_commute accumulate_line_key assms])
  then show ?thesis by (simp add: accumulate_all_fold)
qed

lemma pileup_alignment_forward:
  "\<not> isRC a0 \<Longrightarrow> pileup_alignment opt stale sq g a0 = pileup_alignment opt stale' sq g a0"
  by (simp add: pileup_alignment_def oriented_def)

lemma pileup_alignments_forward:
  "\<forall>a \<in> set als. \<not> isRC a \<Longrightarrow>
   pileup_alignments opt stale sq g als = pileup_alignments opt stale' sq g als"
proof (induction als arbitrary: g)
  case Nil
  then show ?case by simp
next
  case (Cons a als)
  then have "pileup_alignment opt stale sq g a = pileup_alignment opt stale' sq g a"
    by (intro pileup_alignment_forward) simp
  with Cons show ?case by (simp split: sum.splits)
qed

lemma accumulate_all_forward:
  "forward_only rds \<Longrightarrow> accumulate_all opt stale g rds = accumulate_all opt stale' g rds"
proof (induction rds arbitrary: g)
  case Nil
  then show ?case by simp
next
  case (Cons rd rds)
  then have tail: "forward_only rds" and "\<forall>a \<in> set (snd rd). \<not> isRC a"
    by (simp_all add: forward_only_def)
  then have "accumulate opt stale g rd = accumulate opt stale' g rd"
    using pileup_alignments_forward [of "snd rd" opt stale "fst rd" g stale']
    by (cases rd) (simp add: accumulate_def)
  with Cons.IH [OF tail] show ?case by (simp split: sum.splits)
qed

lemma forward_only_permuted:
  assumes "mset (map line_key rds') = mset (map line_key rds)" and "forward_only rds"
  shows "forward_only rds'"
  unfolding forward_only_def
proof (intro ballI)
  fix rd' a assume rd': "rd' \<in> set rds'" and a: "a \<in> set (snd rd')"
  from assms(1) have "set (map line_key rds') = set (map line_key rds)" by (rule mset_eq_setD)
  with rd' have "line_key rd' \<in> line_key ` set rds" by auto
  then obtain rd where rd: "rd \<in> set rds" and "line_key rd' = line_key rd" by auto
  then have "mset (snd rd') = mset (snd rd)" by (simp add: line_key_def)
  then have "set (snd rd') = set (snd rd)" by (rule mset_eq_setD)
  with a rd assms(2) show "\<not> isRC a" by (auto simp: forward_only_def)
qed

text \<open>
  On an input without a placement on the reverse strand accumulation does not depend on
  the order of the lines, nor on the order of the alignments within a line: the result is
  the same, the tables of a run that returns as well as the abort of a run that aborts.
\<close>

lemma buildBaseQuality_permuted_forward:
  assumes "forward_only rds" and "mset (map line_key rds') = mset (map line_key rds)"
  shows "buildBaseQuality opt stale g rds' = buildBaseQuality opt stale g rds"
proof -
  have fwd': "forward_only rds'" using assms(2,1) by (rule forward_only_permuted)
  have "accumulate_all opt' stale g rds' = accumulate_all opt' stale g rds" for opt'
  proof -
    have "accumulate_all opt' stale g rds' = accumulate_all opt' (\<lambda>g sq a. reverseComplement sq) g rds'"
      using fwd' by (rule accumulate_all_forward)
    also have "\<dots> = accumulate_all opt' (\<lambda>g sq a. reverseComplement sq) g rds"
      using assms(2) by (rule accumulate_all_permuted)
    also have "\<dots> = accumulate_all opt' stale g rds"
      using assms(1) by (rule accumulate_all_forward)
    finally show ?thesis .
  qed
  then show ?thesis by (simp add: buildBaseQuality_def)
qed


subsection \<open>Evaluation on small inputs\<close>

lemmas pileup_eval =
  accumulate_def anchored_def pileup_alignment_def oriented_def read_window_def int_of_size_def
  pileup_loc_def pileup_offset_def baseToCode_def seq_at_def count_incr_def count_at_def
  BaseCount_init_def

lemma buildBaseQuality_example:
  "map_sum id (\<lambda>(opt, g'). map_option counts (g' ''c''))
   (buildBaseQuality \<lparr>csToNt = False, colourSpace = False, outputCS = 0, onlyVariants = 0, verbose = 0\<rparr>
        stale
        [''c'' \<mapsto> \<lparr>seq = ''ACGT'', coverage = 0, comment = [],
            counts = [BaseCount_init, BaseCount_init, BaseCount_init, BaseCount_init]\<rparr>]
        [(''ACG'',
          [\<lparr>contig = ''c'', contig_start_pos = 0, read_start_pos = 0, align_length = 3,
             read_length = 3, isRC = False\<rparr>,
           \<lparr>contig = ''c'', contig_start_pos = 1, read_start_pos = 0, align_length = 3,
             read_length = 3, isRC = False\<rparr>]),
         (''GT'',
          [\<lparr>contig = ''c'', contig_start_pos = 2, read_start_pos = 0, align_length = 2,
             read_length = 2, isRC = False\<rparr>])])
   = Inr (Some [\<lparr>count0 = 1, count1 = 0, count2 = 0, count3 = 0\<rparr>,
                \<lparr>count0 = 1, count1 = 1, count2 = 0, count3 = 0\<rparr>,
                \<lparr>count0 = 0, count1 = 1, count2 = 2, count3 = 0\<rparr>,
                \<lparr>count0 = 0, count1 = 0, count2 = 1, count3 = 1\<rparr>])"
  by (simp add: buildBaseQuality_def pileup_eval)


subsection \<open>A read on the reverse strand\<close>


subsection \<open>Offsets outside the table\<close>

lemma pileup_loop_out_of_bounds:
  "x0 \<le> x \<Longrightarrow> x < read_max \<Longrightarrow> \<not> pileup_loc a x < length cv \<Longrightarrow>
   pileup_loop s a read_max x0 cv = Inl Abort"
proof (induction s a read_max x0 cv rule: pileup_loop.induct)
  case (1 s a read_max x0 cv)
  from "1.prems" have go: "x0 < read_max" by simp
  show ?case
  proof (cases "baseToCode (seq_at s (nat x0))")
    case None
    with go show ?thesis by simp
  next
    case (Some base)
    show ?thesis
    proof (cases "pileup_loc a x0 < length cv")
      case False
      with go Some show ?thesis by simp
    next
      case True
      with "1.prems" have "x0 \<noteq> x" by auto
      with "1.prems" have next_le: "x0 + 1 \<le> x" by simp
      have "pileup_loop s a read_max (x0 + 1)
          (cv[pileup_loc a x0 := count_incr (cv ! pileup_loc a x0) base]) = Inl Abort"
        using "1.prems" by (intro "1.IH" [OF go Some True next_le]) simp_all
      with go Some True show ?thesis by simp
    qed
  qed
qed

lemma pileup_alignment_out_of_bounds:
  assumes "oriented stale g sq a0 = (s, a)" and "g (contig a) = Some cc"
    and "read_window opt (length (counts cc)) a = (read_min, read_max)"
    and "read_min \<le> x" and "x < read_max"
    and "\<not> pileup_loc a x < length (counts cc)"
  shows "pileup_alignment opt stale sq g a0 = Inl Abort"
proof -
  have "pileup_loop s a read_max read_min (counts cc) = Inl Abort"
    using assms(4-6) by (rule pileup_loop_out_of_bounds)
  with assms(1-3) show ?thesis
    by (simp add: pileup_alignment_def)
qed

text \<open>
  Whether an offset is outside the table depends on the length of the table only, which
  accumulation keeps: an alignment that is out of bounds in one table is out of bounds
  in every table that accumulation makes of it, whatever is read through the pointer.
\<close>

lemma out_of_bounds_shifted:
  assumes "shifted d g h"
    and "oriented stale g sq a0 = (s, a)" and "g (contig a) = Some cc"
    and "read_window opt (length (counts cc)) a = (read_min, read_max)"
    and "read_min \<le> x" and "x < read_max"
    and "\<not> pileup_loc a x < length (counts cc)"
  shows "pileup_alignment opt stale sq h a0 = Inl Abort"
proof -
  from shifted_Some [OF assms(1,3)] obtain cv' where
    h: "h (contig a) = Some (cc\<lparr>counts := cv'\<rparr>)"
    and "counts_shifted (d (contig a)) (counts cc) cv'" by blast
  then have len: "length (counts (cc\<lparr>counts := cv'\<rparr>)) = length (counts cc)"
    by (simp add: counts_shifted_def)
  from assms(2) have "a = (if isRC a0 then flipQuery a0 else a0)"
    by (auto simp: oriented_def split: if_splits)
  then have ori: "oriented stale h sq a0 = (fst (oriented stale h sq a0), a)"
    by (simp add: oriented_def)
  show ?thesis
    using ori h
  proof (rule pileup_alignment_out_of_bounds)
    show "read_window opt (length (counts (cc\<lparr>counts := cv'\<rparr>))) a = (read_min, read_max)"
      using assms(4) len by simp
    show "read_min \<le> x" "x < read_max" by fact+
    show "\<not> pileup_loc a x < length (counts (cc\<lparr>counts := cv'\<rparr>))"
      using assms(7) len by simp
  qed
qed

lemma pileup_alignments_frame:
  "pileup_alignments opt stale sq g als = Inr g' \<Longrightarrow> \<exists>d. shifted d g g'"
proof (induction als arbitrary: g)
  case Nil
  then show ?case using shifted_refl by auto
next
  case (Cons a als)
  then obtain g1 where a: "pileup_alignment opt stale sq g a = Inr g1"
    and rest: "pileup_alignments opt stale sq g1 als = Inr g'"
    by (auto split: sum.splits)
  from a obtain d where "shifted d g g1" using pileup_alignment_frame by blast
  moreover from Cons.IH [OF rest] obtain d' where "shifted d' g1 g'" by blast
  ultimately show ?case using shifted_trans by blast
qed

lemma accumulate_frame:
  "accumulate opt stale g rd = Inr g' \<Longrightarrow> \<exists>d. shifted d g g'"
  using shifted_refl pileup_alignments_frame
  by (cases rd) (auto simp: accumulate_def split: if_splits)

lemma pileup_alignments_abort:
  "a0 \<in> set als \<Longrightarrow> \<forall>d h. shifted d g h \<longrightarrow> pileup_alignment opt stale sq h a0 = Inl Abort \<Longrightarrow>
   pileup_alignments opt stale sq g als = Inl Abort"
proof (induction als arbitrary: g)
  case Nil
  then show ?case by simp
next
  case (Cons a als)
  show ?case
  proof (cases "pileup_alignment opt stale sq g a")
    case (Inl e)
    then show ?thesis by (simp add: error_eq [of e])
  next
    case (Inr g1)
    from Cons.prems(2) shifted_refl have "pileup_alignment opt stale sq g a0 = Inl Abort"
      by blast
    with Inr have "a0 \<noteq> a" by auto
    with Cons.prems have mem: "a0 \<in> set als" by simp
    from Inr obtain d where "shifted d g g1" using pileup_alignment_frame by blast
    with Cons.prems(2)
    have "\<forall>d h. shifted d g1 h \<longrightarrow> pileup_alignment opt stale sq h a0 = Inl Abort"
      using shifted_trans by blast
    from Cons.IH [OF mem this] Inr show ?thesis by simp
  qed
qed

lemma accumulate_all_abort:
  "(sq, als) \<in> set rds \<Longrightarrow> a0 \<in> set als \<Longrightarrow> csToNt opt \<longrightarrow> anchored als \<Longrightarrow>
   \<forall>d h. shifted d g h \<longrightarrow> pileup_alignment opt stale sq h a0 = Inl Abort \<Longrightarrow>
   accumulate_all opt stale g rds = Inl Abort"
proof (induction rds arbitrary: g)
  case Nil
  then show ?case by simp
next
  case (Cons rd rds)
  show ?case
  proof (cases "accumulate opt stale g rd")
    case (Inl e)
    then show ?thesis by (simp add: error_eq [of e])
  next
    case (Inr g1)
    have "rd \<noteq> (sq, als)"
    proof
      assume "rd = (sq, als)"
      with Cons.prems(3) have "accumulate opt stale g rd = pileup_alignments opt stale sq g als"
        by (auto simp: accumulate_def)
      with pileup_alignments_abort [OF Cons.prems(2,4)] Inr show False by simp
    qed
    with Cons.prems(1) have mem: "(sq, als) \<in> set rds" by auto
    from Inr obtain d where "shifted d g g1" using accumulate_frame by blast
    with Cons.prems(4)
    have "\<forall>d h. shifted d g1 h \<longrightarrow> pileup_alignment opt stale sq h a0 = Inl Abort"
      using shifted_trans by blast
    from Cons.IH [OF mem Cons.prems(2,3) this] Inr show ?thesis by simp
  qed
qed

lemma read_window_csToNt:
  "csToNt opt' = csToNt opt \<Longrightarrow> read_window opt' n a = read_window opt n a"
  by (simp add: read_window_def)

text \<open>
  Claim C5: when an alignment of a read that is used has, for some read position \<open>x\<close> of
  its window, a destination offset \<open>contig_start_pos - read_start_pos + x\<close> that reaches
  or exceeds the length of the pile-up table of its contig, the run aborts: no table is
  returned, so no count of a clamped or wrapped position is ever seen. This holds on
  either strand, whatever is read through the pointer. The offset is an \<^verbatim>\<open>int\<close>, below
  \<open>2 ^ 31\<close>. In the run of the witness the assertion before the loop holds, and the
  assertion inside the loop ends the run.
\<close>

theorem out_of_bounds_aborts:
  assumes "(sq, als) \<in> set rds" and "a0 \<in> set als"
    and "csToNt opt \<longrightarrow> anchored als"
    and "oriented stale g sq a0 = (s, a)"
    and "g (contig a) = Some cc"
    and "read_window opt (length (counts cc)) a = (read_min, read_max)"
    and "read_min \<le> x" and "x < read_max"
    and "int (length (counts cc)) \<le> pileup_offset a x"
    and "pileup_offset a x < 2 ^ 31"
  shows "buildBaseQuality opt stale g rds = Inl Abort"
proof -
  define opt' where "opt' = (if csToNt opt then opt\<lparr>colourSpace := False\<rparr> else opt)"
  have cs: "csToNt opt' = csToNt opt" by (simp add: opt'_def)
  from assms(9,10) have "pileup_offset a x mod 2 ^ 32 = pileup_offset a x"
    by (intro mod_pos_pos_trivial) simp_all
  with assms(9) have out: "\<not> pileup_loc a x < length (counts cc)"
    by (simp add: pileup_loc_def)
  from assms(6) have win: "read_window opt' (length (counts cc)) a = (read_min, read_max)"
    by (simp add: read_window_csToNt [OF cs])
  have "\<forall>d h. shifted d g h \<longrightarrow> pileup_alignment opt' stale sq h a0 = Inl Abort"
    using assms(4,5) win assms(7,8) out by (blast intro: out_of_bounds_shifted)
  with assms(1-3) cs have "accumulate_all opt' stale g rds = Inl Abort"
    by (intro accumulate_all_abort [where sq = sq and als = als and ?a0.0 = a0]) simp_all
  then show ?thesis
    by (simp add: buildBaseQuality_def opt'_def)
qed

theorem out_of_bounds_aborts_witness:
  "buildBaseQuality \<lparr>csToNt = True, colourSpace = True, outputCS = 0, onlyVariants = 0, verbose = 0\<rparr>
        (\<lambda>g sq a. reverseComplement sq)
        [''c'' \<mapsto> \<lparr>seq = ''000'', coverage = 0, comment = [],
            counts = [BaseCount_init, BaseCount_init, BaseCount_init, BaseCount_init]\<rparr>]
        [(''ACG'',
         [\<lparr>contig = ''c'', contig_start_pos = 2, read_start_pos = 0, align_length = 2,
            read_length = 3, isRC = False\<rparr>])]
   = Inl Abort"
proof -
  let ?opt = "\<lparr>csToNt = True, colourSpace = True, outputCS = 0, onlyVariants = 0, verbose = 0\<rparr>"
  let ?cc = "\<lparr>seq = ''000'', coverage = 0, comment = [],
            counts = [BaseCount_init, BaseCount_init, BaseCount_init, BaseCount_init]\<rparr>"
  let ?a = "\<lparr>contig = ''c'', contig_start_pos = 2, read_start_pos = 0, align_length = 2,
            read_length = 3, isRC = False\<rparr>"
  show ?thesis
    using out_of_bounds_aborts [where sq = "''ACG''" and als = "[?a]" and rds = "[(''ACG'', [?a])]"
        and ?a0.0 = ?a and opt = ?opt and stale = "\<lambda>g sq a. reverseComplement sq"
        and s = "''ACG''" and a = ?a and g = "[''c'' \<mapsto> ?cc]" and cc = ?cc
        and read_min = 0 and read_max = 3 and x = 2]
    by (simp add: anchored_def oriented_def read_window_def pileup_offset_def)
qed


subsection \<open>Reads that are not anchored at the read origin\<close>

lemma accumulate_all_anchored:
  "csToNt opt \<Longrightarrow>
   accumulate_all opt stale g rds
     = accumulate_all opt stale g (filter (\<lambda>rd. anchored (snd rd)) rds)"
proof (induction rds arbitrary: g)
  case Nil
  then show ?case by simp
next
  case (Cons rd rds)
  show ?case
  proof (cases "anchored (snd rd)")
    case True
    with Cons show ?thesis by (simp split: sum.splits)
  next
    case False
    with Cons.prems have "accumulate opt stale g rd = Inr g"
      by (cases rd) (simp add: accumulate_def)
    with False Cons show ?thesis by simp
  qed
qed

subsection \<open>The read depth that an accepted read adds\<close>

lemma count_sum_incr: "count_sum (count_incr bc base) = count_sum bc + 1"
  by (simp add: count_sum_def count_incr_def)

lemma window_hits_empty: "\<not> x < read_max \<Longrightarrow> window_hits a x read_max loc = 0"
  by (simp add: window_hits_def)

lemma window_hits_step:
  "x < read_max \<Longrightarrow>
   window_hits a x read_max loc
     = (if pileup_loc a x = loc then 1 else 0) + window_hits a (x + 1) read_max loc"
proof -
  assume "x < read_max"
  then have "[x..read_max - 1] = x # [x + 1..read_max - 1]"
    by (simp add: upto_rec1)
  then show ?thesis by (simp add: window_hits_def)
qed

lemma pileup_loop_depth:
  "pileup_loop s a read_max x cv = Inr r \<Longrightarrow> loc < length cv \<Longrightarrow>
   count_sum (r ! loc) = count_sum (cv ! loc) + of_nat (window_hits a x read_max loc)"
proof (induction s a read_max x cv rule: pileup_loop.induct)
  case (1 s a read_max x cv)
  show ?case
  proof (cases "x < read_max")
    case False
    with "1.prems" show ?thesis by (simp add: window_hits_empty)
  next
    case True
    with "1.prems" obtain base where base: "baseToCode (seq_at s (nat x)) = Some base"
      by (cases "baseToCode (seq_at s (nat x))") auto
    with "1.prems" True have inside: "pileup_loc a x < length cv"
      by (auto split: if_splits)
    let ?cv = "cv[pileup_loc a x := count_incr (cv ! pileup_loc a x) base]"
    from "1.prems" True base inside have run: "pileup_loop s a read_max (x + 1) ?cv = Inr r"
      by simp
    from "1.prems"(2) have "loc < length ?cv" by simp
    from "1.IH" [OF True base inside run this]
    have "count_sum (r ! loc)
        = count_sum (?cv ! loc) + of_nat (window_hits a (x + 1) read_max loc)" .
    moreover have "count_sum (?cv ! loc)
        = count_sum (cv ! loc) + (if pileup_loc a x = loc then 1 else 0)"
      using "1.prems"(2) inside by (simp add: nth_list_update count_sum_incr)
    ultimately show ?thesis
      using True by (simp add: window_hits_step)
  qed
qed

lemma pileup_alignment_depth:
  assumes run: "pileup_alignment opt stale sq g a0 = Inr g'"
    and gi: "g i = Some cc" and loc: "loc < length (counts cc)"
  shows "\<exists>cc'. g' i = Some cc' \<and> length (counts cc') = length (counts cc)
          \<and> count_sum (counts cc' ! loc)
              = count_sum (counts cc ! loc) + of_nat (placement_hits opt g a0 i loc)"
proof -
  define a where "a = (if isRC a0 then flipQuery a0 else a0)"
  define s where "s = (if isRC a0 then stale g sq a0 else sq)"
  have ori: "oriented stale g sq a0 = (s, a)" by (simp add: oriented_def a_def s_def)
  show ?thesis
  proof (cases "g (contig a)")
    case None
    with run ori have "g' = g" by (simp add: pileup_alignment_def)
    moreover from None have "placement_hits opt g a0 i loc = 0"
      by (simp add: placement_hits_def a_def)
    ultimately show ?thesis using gi by simp
  next
    case (Some c0)
    obtain read_min read_max where win: "read_window opt (length (counts c0)) a = (read_min, read_max)"
      by (cases "read_window opt (length (counts c0)) a") auto
    from run ori Some win obtain r where
      loop: "pileup_loop s a read_max read_min (counts c0) = Inr r"
      and g': "g' = g(contig a \<mapsto> c0\<lparr>counts := r\<rparr>)"
      by (auto simp: pileup_alignment_def split: if_splits sum.splits)
    from loop have len: "length r = length (counts c0)" by (rule pileup_loop_length)
    show ?thesis
    proof (cases "contig a = i")
      case True
      with Some gi have c0: "c0 = cc" by simp
      from pileup_loop_depth [OF loop] loc c0
      have "count_sum (r ! loc)
          = count_sum (counts cc ! loc) + of_nat (window_hits a read_min read_max loc)"
        by simp
      moreover from Some win True have "placement_hits opt g a0 i loc
          = window_hits a read_min read_max loc"
        by (simp add: placement_hits_def a_def [symmetric])
      ultimately show ?thesis
        using True len c0 by (simp add: g')
    next
      case False
      with Some win have "placement_hits opt g a0 i loc = 0"
        by (simp add: placement_hits_def a_def [symmetric])
      with False gi show ?thesis by (simp add: g')
    qed
  qed
qed

lemma placement_hits_shifted:
  assumes "shifted d g h"
  shows "placement_hits opt h a0 i loc = placement_hits opt g a0 i loc"
proof -
  define a where "a = (if isRC a0 then flipQuery a0 else a0)"
  show ?thesis
  proof (cases "g (contig a)")
    case None
    with assms have "h (contig a) = None" by (simp add: shifted_None)
    with None show ?thesis by (simp add: placement_hits_def a_def [symmetric])
  next
    case (Some c0)
    from shifted_Some [OF assms Some] obtain cv' where
      "h (contig a) = Some (c0\<lparr>counts := cv'\<rparr>)" and "length cv' = length (counts c0)"
      by (auto simp: counts_shifted_def)
    with Some show ?thesis by (simp add: placement_hits_def a_def [symmetric])
  qed
qed

lemma pileup_alignments_depth:
  "pileup_alignments opt stale sq g als = Inr g' \<Longrightarrow> g i = Some cc \<Longrightarrow>
   loc < length (counts cc) \<Longrightarrow>
   \<exists>cc'. g' i = Some cc' \<and> length (counts cc') = length (counts cc)
     \<and> count_sum (counts cc' ! loc)
         = count_sum (counts cc ! loc) + of_nat (read_hits opt g als i loc)"
proof (induction als arbitrary: g cc)
  case Nil
  then show ?case by (simp add: read_hits_def)
next
  case (Cons a0 als)
  from Cons.prems(1) obtain g1 where first: "pileup_alignment opt stale sq g a0 = Inr g1"
    and rest: "pileup_alignments opt stale sq g1 als = Inr g'"
    by (auto split: sum.splits)
  from pileup_alignment_depth [OF first Cons.prems(2,3)] obtain c1 where
    g1: "g1 i = Some c1" and len1: "length (counts c1) = length (counts cc)"
    and sum1: "count_sum (counts c1 ! loc)
        = count_sum (counts cc ! loc) + of_nat (placement_hits opt g a0 i loc)"
    by blast
  from Cons.prems(3) len1 have "loc < length (counts c1)" by simp
  from Cons.IH [OF rest g1 this] obtain cc' where
    g': "g' i = Some cc'" and len': "length (counts cc') = length (counts c1)"
    and sum': "count_sum (counts cc' ! loc)
        = count_sum (counts c1 ! loc) + of_nat (read_hits opt g1 als i loc)"
    by blast
  from first obtain d where "shifted d g g1" using pileup_alignment_frame by blast
  then have "read_hits opt g1 als i loc = read_hits opt g als i loc"
    by (simp add: read_hits_def placement_hits_shifted)
  with sum1 sum' have "count_sum (counts cc' ! loc)
      = count_sum (counts cc ! loc) + of_nat (read_hits opt g (a0 # als) i loc)"
    by (simp add: read_hits_def)
  with g' len' len1 show ?case by simp
qed

text \<open>
  Claim C2, as the code has it. In colour-space conversion a read none of whose alignments
  starts at read position 0 is skipped entirely, so removing every such line from the
  input changes nothing. A read with at least one alignment that starts at read position 0
  is piled up with all of its alignments, whatever their read start: when its pile-up
  returns, the read depth at every position of every contig has grown by the number of
  read positions that all the alignments of the read place there.
\<close>

theorem read_gate_is_per_read:
  assumes "csToNt opt"
  shows "buildBaseQuality opt stale g rds
           = buildBaseQuality opt stale g (filter (\<lambda>rd. anchored (snd rd)) rds)
       \<and> (\<forall>sq als g' i cc loc.
             anchored als \<longrightarrow> accumulate opt stale g (sq, als) = Inr g' \<longrightarrow>
             g i = Some cc \<longrightarrow> loc < length (counts cc) \<longrightarrow>
             (\<exists>cc'. g' i = Some cc'
                \<and> count_sum (counts cc' ! loc)
                    = count_sum (counts cc ! loc) + of_nat (read_hits opt g als i loc)))"
proof (intro conjI allI impI)
  have "accumulate_all (opt\<lparr>colourSpace := False\<rparr>) stale g rds
      = accumulate_all (opt\<lparr>colourSpace := False\<rparr>) stale g
          (filter (\<lambda>rd. anchored (snd rd)) rds)"
    using assms by (intro accumulate_all_anchored) simp
  with assms show "buildBaseQuality opt stale g rds
      = buildBaseQuality opt stale g (filter (\<lambda>rd. anchored (snd rd)) rds)"
    by (simp add: buildBaseQuality_def)
next
  fix sq als g' i cc loc
  assume "anchored als" and run: "accumulate opt stale g (sq, als) = Inr g'"
    and gi: "g i = Some cc" and loc: "loc < length (counts cc)"
  then have "pileup_alignments opt stale sq g als = Inr g'"
    by (simp add: accumulate_def)
  from pileup_alignments_depth [OF this gi loc]
  show "\<exists>cc'. g' i = Some cc'
      \<and> count_sum (counts cc' ! loc)
          = count_sum (counts cc ! loc) + of_nat (read_hits opt g als i loc)"
    by blast
qed

theorem read_gate_is_per_read_witness:
  "(\<exists>g' cc'.
      accumulate \<lparr>csToNt = True, colourSpace = False, outputCS = 0, onlyVariants = 0, verbose = 0\<rparr>
        (\<lambda>g sq a. reverseComplement sq)
        [''c'' \<mapsto> \<lparr>seq = ''000'', coverage = 0, comment = [],
            counts = [BaseCount_init, BaseCount_init, BaseCount_init, BaseCount_init]\<rparr>]
        (''ACGT'',
         [\<lparr>contig = ''c'', contig_start_pos = 0, read_start_pos = 0, align_length = 3,
            read_length = 4, isRC = False\<rparr>,
          \<lparr>contig = ''c'', contig_start_pos = 0, read_start_pos = 1, align_length = 2,
            read_length = 4, isRC = False\<rparr>]) = Inr g'
      \<and> g' ''c'' = Some cc' \<and> count_sum (counts cc' ! 0) = 2)
 \<and> buildBaseQuality \<lparr>csToNt = True, colourSpace = True, outputCS = 0, onlyVariants = 0, verbose = 0\<rparr>
        (\<lambda>g sq a. reverseComplement sq)
        [''c'' \<mapsto> \<lparr>seq = ''000'', coverage = 0, comment = [],
            counts = [BaseCount_init, BaseCount_init, BaseCount_init, BaseCount_init]\<rparr>]
        [(''ACGT'',
         [\<lparr>contig = ''c'', contig_start_pos = 0, read_start_pos = 1, align_length = 2,
            read_length = 4, isRC = False\<rparr>])]
   = Inr (\<lparr>csToNt = True, colourSpace = False, outputCS = 0, onlyVariants = 0, verbose = 0\<rparr>,
        [''c'' \<mapsto> \<lparr>seq = ''000'', coverage = 0, comment = [],
            counts = [BaseCount_init, BaseCount_init, BaseCount_init, BaseCount_init]\<rparr>])"
proof -
  let ?opt = "\<lparr>csToNt = True, colourSpace = False, outputCS = 0, onlyVariants = 0, verbose = 0\<rparr>"
  let ?start = "\<lparr>csToNt = True, colourSpace = True, outputCS = 0, onlyVariants = 0, verbose = 0\<rparr>"
  let ?stale = "\<lambda>(g::ContigMap) (sq::Sequence) (a::Alignment). reverseComplement sq"
  let ?cc = "\<lparr>seq = ''000'', coverage = 0, comment = [],
            counts = [BaseCount_init, BaseCount_init, BaseCount_init, BaseCount_init]\<rparr>"
  let ?g = "[''c'' \<mapsto> ?cc]"
  let ?a1 = "\<lparr>contig = ''c'', contig_start_pos = 0, read_start_pos = 0, align_length = 3,
            read_length = 4, isRC = False\<rparr>"
  let ?a2 = "\<lparr>contig = ''c'', contig_start_pos = 0, read_start_pos = 1, align_length = 2,
            read_length = 4, isRC = False\<rparr>"
  have cs: "csToNt ?opt" and cs0: "csToNt ?start" by simp_all
  obtain g' where run: "accumulate ?opt ?stale ?g (''ACGT'', [?a1, ?a2]) = Inr g'"
    by (simp add: pileup_eval)
  have anc: "anchored [?a1, ?a2]" by (simp add: anchored_def)
  have look: "?g ''c'' = Some ?cc" and loc: "0 < length (counts ?cc)" by simp_all
  have hits: "read_hits ?opt ?g [?a1, ?a2] ''c'' 0 = 2"
    by (simp add: read_hits_def placement_hits_def window_hits_def read_window_def
        pileup_loc_def pileup_offset_def upto_rec1)
  from read_gate_is_per_read [OF cs, of ?stale ?g, THEN conjunct2] anc run look loc
  obtain cc' where "g' ''c'' = Some cc'"
    and "count_sum (counts cc' ! 0) = count_sum (counts ?cc ! 0) + of_nat (read_hits ?opt ?g [?a1, ?a2] ''c'' 0)"
    by blast
  with hits have depth: "g' ''c'' = Some cc' \<and> count_sum (counts cc' ! 0) = 2"
    by (simp add: count_sum_def BaseCount_init_def)
  have "buildBaseQuality ?start ?stale ?g [(''ACGT'', [?a2])]
      = buildBaseQuality ?start ?stale ?g (filter (\<lambda>rd. anchored (snd rd)) [(''ACGT'', [?a2])])"
    by (rule read_gate_is_per_read [OF cs0, THEN conjunct1])
  also have "\<dots> = buildBaseQuality ?start ?stale ?g []"
    by (simp add: anchored_def)
  also have "\<dots> = Inr (?opt, ?g)"
    by (simp add: buildBaseQuality_def)
  finally have skip: "buildBaseQuality ?start ?stale ?g [(''ACGT'', [?a2])] = Inr (?opt, ?g)" .
  from run depth skip show ?thesis by blast
qed

text \<open>
  Claim C2 as stated fails. It reads: only the alignments whose read start is exactly 0
  contribute, and alignments with another read start are never used. The read below has
  an alignment that starts at read position 0 and one that starts at read position 1.
  With both, position 0 of the contig has one vote for C, which is the base at read
  position 1 placed by the second alignment; with the first alignment alone it has none.
\<close>

theorem unanchored_placement_counterexample:
  "map_sum id (\<lambda>g'. map_option (\<lambda>c. count_at (counts c ! 0) 1) (g' ''c''))
     (accumulate \<lparr>csToNt = True, colourSpace = False, outputCS = 0, onlyVariants = 0, verbose = 0\<rparr>
        (\<lambda>g sq a. reverseComplement sq)
        [''c'' \<mapsto> \<lparr>seq = ''000'', coverage = 0, comment = [],
            counts = [BaseCount_init, BaseCount_init, BaseCount_init, BaseCount_init]\<rparr>]
        (''ACGT'',
         [\<lparr>contig = ''c'', contig_start_pos = 0, read_start_pos = 0, align_length = 3,
            read_length = 4, isRC = False\<rparr>,
          \<lparr>contig = ''c'', contig_start_pos = 0, read_start_pos = 1, align_length = 2,
            read_length = 4, isRC = False\<rparr>]))
   = Inr (Some 1)
 \<and> map_sum id (\<lambda>g'. map_option (\<lambda>c. count_at (counts c ! 0) 1) (g' ''c''))
     (accumulate \<lparr>csToNt = True, colourSpace = False, outputCS = 0, onlyVariants = 0, verbose = 0\<rparr>
        (\<lambda>g sq a. reverseComplement sq)
        [''c'' \<mapsto> \<lparr>seq = ''000'', coverage = 0, comment = [],
            counts = [BaseCount_init, BaseCount_init, BaseCount_init, BaseCount_init]\<rparr>]
        (''ACGT'',
         [\<lparr>contig = ''c'', contig_start_pos = 0, read_start_pos = 0, align_length = 3,
            read_length = 4, isRC = False\<rparr>]))
   = Inr (Some 0)"
  by (simp add: pileup_eval)


end
